theory Spec2Isabelle
  imports Main
begin

section \<open>Errors raised by the code\<close>

text \<open>
  \<open>TypeError\<close> is what the JavaScript host raises when a property of \<open>null\<close> or
  \<open>undefined\<close> is read; \<open>DuplicateKey\<close> is the \<open>Error('Duplicate Key')\<close> thrown by
  \<open>DiagnosticsProvider.add\<close>.
\<close>

datatype error = TypeError | DuplicateKey

section \<open>Event: subscribe, unsubscribe token, trigger\<close>

text \<open>
  \<open>Event<T>\<close> holds the array \<open>_subscribed\<close>. Handlers are closures; the model names each
  closure by a value of type \<open>'h\<close> (its identity) and is given their behaviour separately
  (the parameter \<open>run\<close> of \<open>Event_trigger\<close>).
\<close>

record 'h Event =
  subscribed :: "'h list"

definition Event_new :: "'h Event" where
  "Event_new = \<lparr>subscribed = []\<rparr>"

text \<open>\<open>Array.prototype.splice(index, 1)\<close> for \<open>index \<ge> 0\<close>: the element at \<open>index\<close> is
  removed; when \<open>index\<close> is not below the length nothing is removed.\<close>

definition splice1 :: "nat \<Rightarrow> 'x list \<Rightarrow> 'x list" where
  "splice1 index xs = take index xs @ drop (index + 1) xs"

text \<open>\<open>subscribe\<close> pushes the handler and returns a closure over \<open>index\<close> (the position the
  handler has at that moment) and over the array itself. The closure is modelled by the
  captured index; \<open>Unsubscribe_call\<close> is what invoking it does.\<close>

definition Event_subscribe :: "'h Event \<Rightarrow> 'h \<Rightarrow> 'h Event \<times> nat" where
  "Event_subscribe ev h =
     (let subs = subscribed ev @ [h];
          index = length subs - 1
      in (ev\<lparr>subscribed := subs\<rparr>, index))"

definition Unsubscribe_call :: "nat \<Rightarrow> 'h Event \<Rightarrow> 'h Event" where
  "Unsubscribe_call index ev = ev\<lparr>subscribed := splice1 index (subscribed ev)\<rparr>"

text \<open>
  \<open>trigger\<close> walks the array by index and reads \<open>this._subscribed.length\<close> again before every
  step. A handler may do anything to the event while it runs (subscribe, unsubscribe), so
  its behaviour \<open>run h args\<close> transforms the event together with the rest of the world
  \<open>'w\<close>. The loop need not end (a handler that subscribes a new handler on each call), hence
  the option: \<open>None\<close> is a trigger that never returns.
\<close>

partial_function (option) trigger_loop ::
  "('h \<Rightarrow> 'arg \<Rightarrow> 'h Event \<times> 'w \<Rightarrow> 'h Event \<times> 'w) \<Rightarrow> 'arg \<Rightarrow> nat \<Rightarrow> 'h Event \<times> 'w
     \<Rightarrow> ('h Event \<times> 'w) option" where
  "trigger_loop run args n st =
     (if n < length (subscribed (fst st))
      then trigger_loop run args (n + 1) (run (subscribed (fst st) ! n) args st)
      else Some st)"

definition Event_trigger ::
  "('h \<Rightarrow> 'arg \<Rightarrow> 'h Event \<times> 'w \<Rightarrow> 'h Event \<times> 'w) \<Rightarrow> 'arg \<Rightarrow> 'h Event \<times> 'w
     \<Rightarrow> ('h Event \<times> 'w) option" where
  "Event_trigger run args st = trigger_loop run args 0 st"

text \<open>A handler behaviour that also writes the handler's identity to a log kept in front
  of the world: the log lists the handlers a trigger invoked, in order.\<close>

definition logged ::
  "('h \<Rightarrow> 'arg \<Rightarrow> 'h Event \<times> 'w \<Rightarrow> 'h Event \<times> 'w)
     \<Rightarrow> 'h \<Rightarrow> 'arg \<Rightarrow> 'h Event \<times> ('h list \<times> 'w) \<Rightarrow> 'h Event \<times> ('h list \<times> 'w)" where
  "logged run h args st =
     (case st of (ev, (log, w)) \<Rightarrow>
        (case run h args (ev, w) of (ev', w') \<Rightarrow> (ev', (log @ [h], w'))))"

section \<open>TreeTraverser\<close>

text \<open>\<open>TreeLike\<close>: a node with an optional array of children. The label stands for whatever
  else the node carries.\<close>

datatype 'a tree = Node (label: 'a) (children: "'a tree list option")

text \<open>A variable of type \<open>T\<close> can hold \<open>null\<close> at run time (\<open>this.node\<close> returns it for an
  empty spine): a node reference is a \<open>'a tree option\<close>, with \<open>None\<close> for \<open>null\<close>. The
  elements of a \<open>children\<close> array are nodes.\<close>

record 'a TreeTraverser =
  spine :: "'a tree option list"

text \<open>\<open>TreeVisitor\<close>: both hooks are optional. The visitor's own mutable fields are the state
  \<open>'s\<close>, which the hooks update; \<open>haltTraverse\<close> is read from that state (an absent flag
  reads as false). Hooks receive the spine array and are taken not to write to it.\<close>

record ('a, 's) TreeVisitor =
  haltTraverse :: "'s \<Rightarrow> bool"
  preOrder :: "('a tree option \<Rightarrow> 'a tree option list \<Rightarrow> 's \<Rightarrow> bool \<times> 's) option"
  postOrder :: "('a tree option \<Rightarrow> 'a tree option list \<Rightarrow> 's \<Rightarrow> 's) option"

definition node :: "'a TreeTraverser \<Rightarrow> 'a tree option" where
  "node tt = (if spine tt \<noteq> [] then last (spine tt) else None)"

text \<open>
  \<open>_traverse(treeNode, visitor, spine)\<close> for a \<open>treeNode\<close> that is a node. The spine array
  is shared by all recursive calls and mutated by \<open>push\<close> and \<open>pop\<close>, so it is threaded
  through and returned. The \<open>for\<close> loop over the children is \<open>traverse_children\<close>; its first
  component tells whether the loop left the function by the \<open>return\<close> after a child (in
  which case the pushed node is not popped).
\<close>

fun TreeTraverser__traverse_node ::
    "'a tree \<Rightarrow> ('a, 's) TreeVisitor \<Rightarrow> 'a tree option list \<Rightarrow> 's \<Rightarrow> 'a tree option list \<times> 's"
  and traverse_children ::
    "'a tree list \<Rightarrow> ('a, 's) TreeVisitor \<Rightarrow> 'a tree option list \<Rightarrow> 's
       \<Rightarrow> bool \<times> 'a tree option list \<times> 's"
where
  "TreeTraverser__traverse_node (Node a ch) visitor sp s =
     (if haltTraverse visitor s then (sp, s)
      else
        let (descend, s1) =
              (case preOrder visitor of
                 None \<Rightarrow> (True, s)
               | Some pre \<Rightarrow> pre (Some (Node a ch)) sp s)
        in
          if preOrder visitor \<noteq> None \<and> haltTraverse visitor s1 then (sp, s1)
          else
            let (returned, sp2, s2) =
                  (case ch of
                     Some cs \<Rightarrow>
                       if descend then
                         (case traverse_children cs visitor (sp @ [Some (Node a ch)]) s1 of
                            (True, sp', s') \<Rightarrow> (True, sp', s')
                          | (False, sp', s') \<Rightarrow> (False, butlast sp', s'))
                       else (False, sp, s1)
                   | None \<Rightarrow> (False, sp, s1))
            in
              if returned then (sp2, s2)
              else
                (case postOrder visitor of
                   None \<Rightarrow> (sp2, s2)
                 | Some post \<Rightarrow> (sp2, post (Some (Node a ch)) sp2 s2)))"
| "traverse_children [] visitor sp s = (False, sp, s)"
| "traverse_children (c # cs) visitor sp s =
     (case TreeTraverser__traverse_node c visitor sp s of
        (sp1, s1) \<Rightarrow>
          if haltTraverse visitor s1 then (True, sp1, s1)
          else traverse_children cs visitor sp1 s1)"

text \<open>
  \<open>_traverse(treeNode, visitor, spine)\<close> for any \<open>treeNode\<close>. On \<open>null\<close> the code runs the same
  first lines: it returns if the flag is set, hands \<open>null\<close> to the preOrder hook if there is
  one and returns if that set the flag; then reading \<open>treeNode.children\<close> raises. The
  result is the error raised, if any, the spine and the visitor's state as the call leaves
  them.
\<close>

definition TreeTraverser__traverse ::
  "'a tree option \<Rightarrow> ('a, 's) TreeVisitor \<Rightarrow> 'a tree option list \<Rightarrow> 's
     \<Rightarrow> error option \<times> 'a tree option list \<times> 's" where
  "TreeTraverser__traverse treeNode visitor sp s =
     (case treeNode of
        Some t \<Rightarrow> (None, TreeTraverser__traverse_node t visitor sp s)
      | None \<Rightarrow>
          if haltTraverse visitor s then (None, sp, s)
          else
            let (descend, s1) =
                  (case preOrder visitor of
                     None \<Rightarrow> (True, s)
                   | Some pre \<Rightarrow> pre None sp s)
            in
              if preOrder visitor \<noteq> None \<and> haltTraverse visitor s1 then (None, sp, s1)
              else (Some TypeError, sp, s1))"

text \<open>\<open>traverse(visitor)\<close> starts at \<open>this.node\<close> with a copy of \<open>this.spine\<close>. The result is
  the error raised, if any, and the visitor's state.\<close>

definition TreeTraverser_traverse ::
  "'a TreeTraverser \<Rightarrow> ('a, 's) TreeVisitor \<Rightarrow> 's \<Rightarrow> error option \<times> 's" where
  "TreeTraverser_traverse tt visitor s =
     (case TreeTraverser__traverse (node tt) visitor (spine tt) s of
        (e, sp, s') \<Rightarrow> (e, s'))"

subsection \<open>FilterVisitor and FindVisitor\<close>

definition FilterVisitor ::
  "('a tree option \<Rightarrow> bool) \<Rightarrow> ('a, 'a tree option list) TreeVisitor" where
  "FilterVisitor predicate =
     \<lparr>haltTraverse = (\<lambda>array. False),
      preOrder = Some (\<lambda>n sp array. (True, if predicate n then array @ [n] else array)),
      postOrder = None\<rparr>"

text \<open>An error raised by the traversal leaves \<open>filter\<close> and \<open>find\<close> as it is.\<close>

definition TreeTraverser_filter ::
  "'a TreeTraverser \<Rightarrow> ('a tree option \<Rightarrow> bool) \<Rightarrow> error + 'a tree option list" where
  "TreeTraverser_filter tt predicate =
     (case TreeTraverser_traverse tt (FilterVisitor predicate) [] of
        (Some e, array) \<Rightarrow> Inl e
      | (None, array) \<Rightarrow> Inr array)"

record 'a FindVisitor_state =
  found :: "'a tree option list option"
  halt :: bool

definition FindVisitor ::
  "('a tree option \<Rightarrow> bool) \<Rightarrow> ('a, 'a FindVisitor_state) TreeVisitor" where
  "FindVisitor predicate =
     \<lparr>haltTraverse = halt,
      preOrder = Some (\<lambda>n sp st.
        if predicate n then (False, \<lparr>found = Some (sp @ [n]), halt = True\<rparr>)
        else (True, st)),
      postOrder = None\<rparr>"

definition FindVisitor_new :: "'a FindVisitor_state" where
  "FindVisitor_new = \<lparr>found = None, halt = False\<rparr>"

text \<open>\<open>find\<close> returns the node found (or \<open>null\<close>) and leaves the traverser with the spine the
  visitor recorded.\<close>

definition TreeTraverser_find ::
  "'a TreeTraverser \<Rightarrow> ('a tree option \<Rightarrow> bool)
     \<Rightarrow> error + ('a tree option \<times> 'a TreeTraverser)" where
  "TreeTraverser_find tt predicate =
     (case TreeTraverser_traverse tt (FindVisitor predicate) FindVisitor_new of
        (Some e, st) \<Rightarrow> Inl e
      | (None, st) \<Rightarrow>
          (case found st of
             Some f \<Rightarrow> Inr (node (tt\<lparr>spine := f\<rparr>), tt\<lparr>spine := f\<rparr>)
           | None \<Rightarrow> Inr (None, tt)))"

subsection \<open>prevSibling and nextSibling\<close>

text \<open>
  Both methods look up \<open>parent.children.indexOf(this)\<close>, where \<open>this\<close> is the traverser.
  \<open>indexOf\<close> compares by identity, and the array holds nodes: \<open>js_value\<close> keeps the two kinds
  of object apart. \<open>indexOf\<close> gives the first index, or \<open>-1\<close>. Reading \<open>children\<close> of a
  parent that is \<open>null\<close>, or \<open>indexOf\<close> of children that are absent, raises.
\<close>

datatype 'a js_value = NodeObject "'a tree" | TraverserObject "'a TreeTraverser"

fun indexOf :: "'x list \<Rightarrow> 'x \<Rightarrow> int" where
  "indexOf [] x = -1"
| "indexOf (y # ys) x =
     (if y = x then 0 else (let i = indexOf ys x in if i < 0 then -1 else i + 1))"

definition TreeTraverser_prevSibling ::
  "'a TreeTraverser \<Rightarrow> error + ('a tree option \<times> 'a TreeTraverser)" where
  "TreeTraverser_prevSibling tt =
     (if length (spine tt) < 2 then Inr (None, tt)
      else
        (case spine tt ! (length (spine tt) - 2) of
           None \<Rightarrow> Inl TypeError
         | Some parent \<Rightarrow>
             (case children parent of
                None \<Rightarrow> Inl TypeError
              | Some cs \<Rightarrow>
                  let childIndex = indexOf (map NodeObject cs) (TraverserObject tt) in
                  if childIndex > 0 then
                    (let tt' = tt\<lparr>spine :=
                                 butlast (spine tt) @ [Some (cs ! nat (childIndex - 1))]\<rparr>
                     in Inr (node tt', tt'))
                  else Inr (None, tt))))"

text \<open>In \<open>nextSibling\<close> the index read is \<open>childIndex + 1\<close>, which the guard keeps below the
  length; it is at least \<open>0\<close> since \<open>indexOf\<close> is at least \<open>-1\<close>.\<close>

definition TreeTraverser_nextSibling ::
  "'a TreeTraverser \<Rightarrow> error + ('a tree option \<times> 'a TreeTraverser)" where
  "TreeTraverser_nextSibling tt =
     (if length (spine tt) < 2 then Inr (None, tt)
      else
        (case spine tt ! (length (spine tt) - 2) of
           None \<Rightarrow> Inl TypeError
         | Some parent \<Rightarrow>
             (case children parent of
                None \<Rightarrow> Inl TypeError
              | Some cs \<Rightarrow>
                  let childIndex = indexOf (map NodeObject cs) (TraverserObject tt) in
                  if childIndex < int (length cs) - 1 then
                    (let tt' = tt\<lparr>spine :=
                                 butlast (spine tt) @ [Some (cs ! nat (childIndex + 1))]\<rparr>
                     in Inr (node tt', tt'))
                  else Inr (None, tt))))"

subsection \<open>A visitor that records the hook calls made to another visitor\<close>

text \<open>
  \<open>recording v\<close> behaves as \<open>v\<close> and appends, at each hook call, the hook, its two arguments
  and the value \<open>haltTraverse\<close> has when the hook is entered.
\<close>

datatype 'a hook_call =
  PreOrderCall "'a tree option" "'a tree option list"
| PostOrderCall "'a tree option" "'a tree option list"

definition recording ::
  "('a, 's) TreeVisitor \<Rightarrow> ('a, ('a hook_call \<times> bool) list \<times> 's) TreeVisitor" where
  "recording v =
     \<lparr>haltTraverse = (\<lambda>st. haltTraverse v (snd st)),
      preOrder = map_option
        (\<lambda>pre n sp st.
           (fst (pre n sp (snd st)),
            (fst st @ [(PreOrderCall n sp, haltTraverse v (snd st))], snd (pre n sp (snd st)))))
        (preOrder v),
      postOrder = map_option
        (\<lambda>post n sp st.
           (fst st @ [(PostOrderCall n sp, haltTraverse v (snd st))], post n sp (snd st)))
        (postOrder v)\<rparr>"

text \<open>A property of the visitor's state that every hook keeps when it is called with the
  flag unset.\<close>

definition hooks_preserve :: "('a, 's) TreeVisitor \<Rightarrow> ('s \<Rightarrow> bool) \<Rightarrow> bool" where
  "hooks_preserve v I \<longleftrightarrow>
     (\<forall>f n sp s. preOrder v = Some f \<longrightarrow> I s \<longrightarrow> \<not> haltTraverse v s \<longrightarrow> I (snd (f n sp s))) \<and>
     (\<forall>g n sp s. postOrder v = Some g \<longrightarrow> I s \<longrightarrow> \<not> haltTraverse v s \<longrightarrow> I (g n sp s))"

section \<open>Debounce and the host's timers\<close>

text \<open>
  \<open>setTimeout\<close> and \<open>clearTimeout\<close> belong to the JavaScript host. The host is modelled by
  a clock in milliseconds, the queue of pending timeouts and the list of calls the wrapped
  handlers have received. A pending timeout is the closure \<open>later\<close> of \<open>Debounce.handle\<close>:
  it holds the handler and the event it captured. The host runs a pending timeout once,
  not before its due time; the model runs it at its due time. Delays are whole
  milliseconds; the host (Node.js) takes a delay from 1 to 2147483647 as given and sets any
  other delay to 1 (\<open>host_delay\<close>). Handlers are taken not to call back into the
  \<open>Debounce\<close>.
\<close>

record ('h, 'e) Timeout =
  handle_id :: nat
  due :: nat
  later_handler :: 'h
  later_event :: 'e

record ('h, 'e) Host =
  now :: nat
  next_handle :: nat
  timeouts :: "('h, 'e) Timeout list"
  calls :: "(nat \<times> 'h \<times> 'e) list"

definition Host_new :: "('h, 'e) Host" where
  "Host_new = \<lparr>now = 0, next_handle = 1, timeouts = [], calls = []\<rparr>"

definition host_delay :: "nat \<Rightarrow> nat" where
  "host_delay delay = (if delay < 1 \<or> 2147483647 < delay then 1 else delay)"

definition setTimeout :: "'h \<Rightarrow> 'e \<Rightarrow> nat \<Rightarrow> ('h, 'e) Host \<Rightarrow> ('h, 'e) Host \<times> nat" where
  "setTimeout h e delay host =
     (host\<lparr>next_handle := next_handle host + 1,
           timeouts := timeouts host @
             [\<lparr>handle_id = next_handle host, due = now host + host_delay delay,
               later_handler = h, later_event = e\<rparr>]\<rparr>,
      next_handle host)"

definition clearTimeout :: "nat option \<Rightarrow> ('h, 'e) Host \<Rightarrow> ('h, 'e) Host" where
  "clearTimeout t host =
     (case t of
        None \<Rightarrow> host
      | Some i \<Rightarrow> host\<lparr>timeouts := filter (\<lambda>x. handle_id x \<noteq> i) (timeouts host)\<rparr>)"

text \<open>
  The fields of \<open>Debounce\<close>. \<open>_wait\<close> is \<open>wait_private\<close>. The class declares no property or
  accessor named \<open>wait\<close>; an assignment \<open>d.wait = v\<close> from outside (as
  \<open>DiagnosticsProvider.debounceWait\<close> makes) creates one on the object, kept in
  \<open>wait_public\<close>.
\<close>

record ('h, 'e) Debounce =
  handler :: 'h
  lastEvent :: "'e option"
  timer :: "nat option"
  wait_private :: nat
  wait_public :: "nat option"

definition Debounce_new :: "'h \<Rightarrow> nat \<Rightarrow> ('h, 'e) Debounce" where
  "Debounce_new h w =
     \<lparr>handler = h, lastEvent = None, timer = None, wait_private = w, wait_public = None\<rparr>"

definition Debounce_set_wait :: "nat \<Rightarrow> ('h, 'e) Debounce \<Rightarrow> ('h, 'e) Debounce" where
  "Debounce_set_wait v d = d\<lparr>wait_public := Some v\<rparr>"

definition Debounce_clear ::
  "('h, 'e) Debounce \<times> ('h, 'e) Host \<Rightarrow> ('h, 'e) Debounce \<times> ('h, 'e) Host" where
  "Debounce_clear st =
     (case st of (d, host) \<Rightarrow>
        (d\<lparr>timer := None, lastEvent := None\<rparr>, clearTimeout (timer d) host))"

definition Debounce_handle ::
  "'e \<Rightarrow> ('h, 'e) Debounce \<times> ('h, 'e) Host \<Rightarrow> ('h, 'e) Debounce \<times> ('h, 'e) Host" where
  "Debounce_handle event st =
     (case Debounce_clear st of (d1, host1) \<Rightarrow>
        (let d2 = d1\<lparr>lastEvent := Some event\<rparr> in
         (case setTimeout (handler d2) event (wait_private d2) host1 of
            (host2, t) \<Rightarrow> (d2\<lparr>timer := Some t\<rparr>, host2))))"

text \<open>The closure \<open>later\<close>, run by the host for the pending timeout \<open>x\<close>: the handler is
  called with the captured event, then \<open>clear\<close>.\<close>

definition later ::
  "('h, 'e) Timeout \<Rightarrow> ('h, 'e) Debounce \<times> ('h, 'e) Host \<Rightarrow> ('h, 'e) Debounce \<times> ('h, 'e) Host" where
  "later x st =
     (case st of (d, host) \<Rightarrow>
        Debounce_clear
          (d, host\<lparr>calls := calls host @ [(now host, later_handler x, later_event x)]\<rparr>))"

text \<open>\<open>flush\<close> calls the handler only \<open>if (event)\<close>: the pending event must be a value that
  JavaScript takes as true, which \<open>truthy\<close> decides for the event type (\<open>null\<close> is not).\<close>

definition Debounce_flush ::
  "('e \<Rightarrow> bool) \<Rightarrow> ('h, 'e) Debounce \<times> ('h, 'e) Host \<Rightarrow> ('h, 'e) Debounce \<times> ('h, 'e) Host" where
  "Debounce_flush truthy st =
     (case st of (d, host) \<Rightarrow>
        if timer d = None \<or> timer d = Some 0 then st
        else
          (case Debounce_clear st of (d1, host1) \<Rightarrow>
             (case lastEvent d of
                None \<Rightarrow> (d1, host1)
              | Some event \<Rightarrow>
                  if truthy event
                  then (d1, host1\<lparr>calls := calls host1 @ [(now host1, handler d1, event)]\<rparr>)
                  else (d1, host1))))"

text \<open>The host's side: the pending timeout to run next when the clock moves to \<open>t\<close> (least
  due time, the earlier registration first), and the clock moving to \<open>t\<close>, running what
  falls due on the way.\<close>

fun earliest :: "('h, 'e) Timeout \<Rightarrow> ('h, 'e) Timeout list \<Rightarrow> ('h, 'e) Timeout" where
  "earliest x [] = x"
| "earliest x (y # ys) = earliest (if due y < due x then y else x) ys"

definition next_due :: "nat \<Rightarrow> ('h, 'e) Host \<Rightarrow> ('h, 'e) Timeout option" where
  "next_due t host =
     (case filter (\<lambda>x. due x \<le> t) (timeouts host) of
        [] \<Rightarrow> None
      | x # xs \<Rightarrow> Some (earliest x xs))"

definition fire ::
  "('h, 'e) Timeout \<Rightarrow> ('h, 'e) Debounce \<times> ('h, 'e) Host \<Rightarrow> ('h, 'e) Debounce \<times> ('h, 'e) Host" where
  "fire x st =
     (case st of (d, host) \<Rightarrow>
        later x
          (d, host\<lparr>now := max (now host) (due x),
                   timeouts := filter (\<lambda>y. handle_id y \<noteq> handle_id x) (timeouts host)\<rparr>))"

lemma earliest_in: "earliest x xs \<in> set (x # xs)"
  by (induction xs arbitrary: x) (auto split: if_splits)

lemma next_due_in: "next_due t host = Some x \<Longrightarrow> x \<in> set (timeouts host)"
proof -
  assume a: "next_due t host = Some x"
  then obtain y ys where f: "filter (\<lambda>x. due x \<le> t) (timeouts host) = y # ys" and x: "x = earliest y ys"
    by (auto simp: next_due_def split: list.splits)
  have "x \<in> set (y # ys)" using x earliest_in by blast
  then have "x \<in> set (filter (\<lambda>x. due x \<le> t) (timeouts host))" using f by simp
  then show ?thesis by simp
qed

lemma length_filter_conj_le:
  "length (filter (\<lambda>x. P x \<and> Q x) xs) \<le> length (filter P xs)"
  by (induction xs) auto

lemma fire_shrinks:
  assumes "x \<in> set (timeouts host)"
  shows "length (timeouts (snd (fire x (d, host)))) < length (timeouts host)"
proof -
  have 1: "length (filter (\<lambda>y. handle_id y \<noteq> handle_id x) (timeouts host)) < length (timeouts host)"
    using assms by (metis (mono_tags, lifting) length_filter_less)
  have 2: "length (timeouts (snd (fire x (d, host))))
             \<le> length (filter (\<lambda>y. handle_id y \<noteq> handle_id x) (timeouts host))"
    by (cases "timer d")
       (simp_all add: fire_def later_def Debounce_clear_def clearTimeout_def length_filter_conj_le)
  show ?thesis using 1 2 by linarith
qed

function advance ::
  "nat \<Rightarrow> ('h, 'e) Debounce \<times> ('h, 'e) Host \<Rightarrow> ('h, 'e) Debounce \<times> ('h, 'e) Host" where
  "advance t st =
     (case next_due t (snd st) of
        None \<Rightarrow> (fst st, (snd st)\<lparr>now := max (now (snd st)) t\<rparr>)
      | Some x \<Rightarrow> advance t (fire x st))"
  by pat_completeness auto
termination
proof (relation "measure (\<lambda>(t, st). length (timeouts (snd st)))")
  show "wf (measure (\<lambda>(t, st). length (timeouts (snd st))))" by simp
next
  fix t :: nat and st :: "('h, 'e) Debounce \<times> ('h, 'e) Host" and x
  assume "next_due t (snd st) = Some x"
  then have "x \<in> set (timeouts (snd st))" by (rule next_due_in)
  then have "length (timeouts (snd (fire x (fst st, snd st)))) < length (timeouts (snd st))"
    by (rule fire_shrinks)
  then show "((t, fire x st), (t, st)) \<in> measure (\<lambda>(t, st). length (timeouts (snd st)))"
    by simp
qed

declare advance.simps [simp del]

text \<open>A run of the program: \<open>handle(e)\<close> is called at the given times, the host's clock
  moving in between.\<close>

fun handle_calls ::
  "(nat \<times> 'e) list \<Rightarrow> ('h, 'e) Debounce \<times> ('h, 'e) Host \<Rightarrow> ('h, 'e) Debounce \<times> ('h, 'e) Host" where
  "handle_calls [] st = st"
| "handle_calls ((t, e) # rest) st = handle_calls rest (Debounce_handle e (advance t st))"

text \<open>Consecutive calls are less than \<open>w\<close> apart, and time does not run backwards.\<close>

fun within_wait :: "nat \<Rightarrow> nat \<Rightarrow> (nat \<times> 'e) list \<Rightarrow> bool" where
  "within_wait w t0 [] = True"
| "within_wait w t0 ((t, e) # rest) = (t0 \<le> t \<and> t < t0 + w \<and> within_wait w t rest)"

section \<open>DiagnosticsProvider\<close>

subsection \<open>What the provider is given: documents, parse trees, errors\<close>

text \<open>
  The parse tree comes from the parser: a node is a phrase, which may carry an array of
  parse errors, or a token. A parse error holds the unexpected token.
\<close>

record Token =
  tokenType :: nat
  offset :: nat
  len :: nat

record ParseError =
  unexpected :: Token

datatype php_node = Phrase (errors: "ParseError list option") | TokenNode Token

text \<open>The handlers found on a document's change event: the closure \<open>(x) => dd.handle(x)\<close>
  that \<open>add\<close> subscribes for the document of a URI, and handlers of other parties.\<close>

datatype change_handler = DebounceHandler string | OtherHandler nat

text \<open>
  Modelled from the spec: \<open>ParsedDocument\<close> (\<open>./parsedDocument\<close> is not among the sources).
  It has a URI, a parse tree (a root phrase with child phrases and tokens and attached
  parse errors) and a change event source.
\<close>

record ParsedDocument =
  uri :: string
  changeEvent :: "change_handler Event"
  parseTree :: "php_node tree"

text \<open>The one handler every per-URI debouncer wraps.\<close>

datatype provider_callback = OnParsedDocumentChanged

record 'r Diagnostic =
  diag_range :: 'r
  severity :: nat
  source :: string
  message :: string

text \<open>Functions of the parser and of the document that build a diagnostic's range and
  message; they are parameters of the model.\<close>

record 'r Externals =
  tokenRange :: "ParsedDocument \<Rightarrow> Token \<Rightarrow> 'r"
  tokenTypeToString :: "nat \<Rightarrow> string"

subsection \<open>The provider's fields and constructor\<close>

text \<open>
  The class declares the public field \<open>maxItems\<close> and the private field \<open>_maxItems\<close>
  (\<open>maxItems_private\<close>). A field no statement assigns reads as \<open>undefined\<close>, which is
  \<open>None\<close>.
\<close>

record 'r DiagnosticsProvider =
  maxItems :: nat
  docs :: "ParsedDocument list"
  debounceWaitTime :: nat
  publish :: "nat Event"
  startDiagnostics :: "nat Event"
  debounceMap :: "string \<rightharpoonup> (provider_callback, ParsedDocument) Debounce"
  unsubscribeMap :: "string \<rightharpoonup> nat"
  diagnosticsMap :: "string \<rightharpoonup> 'r Diagnostic list"
  maxItems_private :: "nat option"

definition DiagnosticsProvider_new :: "'r DiagnosticsProvider" where
  "DiagnosticsProvider_new =
     \<lparr>maxItems = 100,
      docs = [],
      debounceWaitTime = 1000,
      publish = Event_new,
      startDiagnostics = Event_new,
      debounceMap = Map.empty,
      unsubscribeMap = Map.empty,
      diagnosticsMap = Map.empty,
      maxItems_private = None\<rparr>"

subsection \<open>_find, has, add\<close>

text \<open>\<open>_find\<close> shifts every document out of \<open>_docs\<close>; a document with the URI becomes
  \<open>found\<close> (a later one replaces an earlier one), the others are pushed to \<open>shifted\<close>.\<close>

fun find_loop ::
  "string \<Rightarrow> ParsedDocument list \<Rightarrow> ParsedDocument list \<Rightarrow> ParsedDocument option
     \<Rightarrow> ParsedDocument list \<times> ParsedDocument option" where
  "find_loop u [] shifted fnd = (shifted, fnd)"
| "find_loop u (doc # rest) shifted fnd =
     (if uri doc = u then find_loop u rest shifted (Some doc)
      else find_loop u rest (shifted @ [doc]) fnd)"

definition DiagnosticsProvider__find ::
  "'r DiagnosticsProvider \<Rightarrow> string \<Rightarrow> 'r DiagnosticsProvider \<times> ParsedDocument option" where
  "DiagnosticsProvider__find dp u =
     (case find_loop u (docs dp) [] None of
        (shifted, Some d) \<Rightarrow> (dp\<lparr>docs := d # shifted\<rparr>, Some d)
      | (shifted, None) \<Rightarrow> (dp\<lparr>docs := shifted\<rparr>, None))"

definition DiagnosticsProvider_has ::
  "'r DiagnosticsProvider \<Rightarrow> string \<Rightarrow> 'r DiagnosticsProvider \<times> bool" where
  "DiagnosticsProvider_has dp u =
     (case DiagnosticsProvider__find dp u of (dp', fnd) \<Rightarrow> (dp', fnd \<noteq> None))"

text \<open>
  \<open>add\<close> returns the provider as the call leaves it, and the error thrown if any. The
  document is one object, held by the caller and by \<open>_docs\<close>: the entry in \<open>_docs\<close> shows
  the subscription made on its change event.
\<close>

definition DiagnosticsProvider_add ::
  "'r DiagnosticsProvider \<Rightarrow> ParsedDocument \<Rightarrow> 'r DiagnosticsProvider \<times> (error + unit)" where
  "DiagnosticsProvider_add dp doc =
     (case DiagnosticsProvider_has dp (uri doc) of
        (dp1, True) \<Rightarrow> (dp1, Inl DuplicateKey)
      | (dp1, False) \<Rightarrow>
          (let dd = Debounce_new OnParsedDocumentChanged (debounceWaitTime dp1) in
           (case Event_subscribe (changeEvent doc) (DebounceHandler (uri doc)) of
              (ev, unsubscribe) \<Rightarrow>
                (dp1\<lparr>docs := doc\<lparr>changeEvent := ev\<rparr> # docs dp1,
                     debounceMap := (debounceMap dp1)(uri doc \<mapsto> dd),
                     unsubscribeMap := (unsubscribeMap dp1)(uri doc \<mapsto> unsubscribe)\<rparr>,
                 Inr ()))))"

text \<open>The setter \<open>debounceWait\<close> stores the value and assigns it to \<open>wait\<close> on every
  debouncer of the map.\<close>

definition DiagnosticsProvider_set_debounceWait ::
  "nat \<Rightarrow> 'r DiagnosticsProvider \<Rightarrow> 'r DiagnosticsProvider" where
  "DiagnosticsProvider_set_debounceWait v dp =
     dp\<lparr>debounceWaitTime := v,
        debounceMap := (\<lambda>k. map_option (Debounce_set_wait v) (debounceMap dp k))\<rparr>"

subsection \<open>_diagnose\<close>

text \<open>\<open>ErrorVisitor.preOrder\<close> adds the errors of a phrase that has some. \<open>isPhrase\<close> belongs
  to \<open>ParsedDocument\<close>; it is taken to be false of \<open>null\<close>.\<close>

definition ErrorVisitor :: "(php_node, ParseError list) TreeVisitor" where
  "ErrorVisitor =
     \<lparr>haltTraverse = (\<lambda>errs. False),
      preOrder = Some (\<lambda>n sp errs.
        (True,
         case n of
           None \<Rightarrow> errs
         | Some t \<Rightarrow>
             (case label t of
                Phrase (Some es) \<Rightarrow> errs @ es
              | Phrase None \<Rightarrow> errs
              | TokenNode tok \<Rightarrow> errs))),
      postOrder = None\<rparr>"

text \<open>Modelled from the spec: \<open>ParsedDocument.traverse\<close>, which walks the document tree
  with the visitor, starting at the root phrase.\<close>

definition ParsedDocument_traverse ::
  "ParsedDocument \<Rightarrow> (php_node, 's) TreeVisitor \<Rightarrow> 's \<Rightarrow> error option \<times> 's" where
  "ParsedDocument_traverse doc visitor s =
     TreeTraverser_traverse \<lparr>spine = [Some (parseTree doc)]\<rparr> visitor s"

definition parseErrorToDiagnostic ::
  "'r Externals \<Rightarrow> ParseError \<Rightarrow> ParsedDocument \<Rightarrow> 'r Diagnostic" where
  "parseErrorToDiagnostic ext err doc =
     \<lparr>diag_range = tokenRange ext doc (unexpected err),
      severity = 1,
      source = ''intelephense'',
      message = ''Unexpected '' @ tokenTypeToString ext (tokenType (unexpected err))\<rparr>"

text \<open>\<open>Array.prototype.slice(begin, end)\<close> on indices that are not negative; an \<open>end\<close> that
  is \<open>undefined\<close> stands for the length of the array.\<close>

definition js_slice :: "'x list \<Rightarrow> nat \<Rightarrow> nat option \<Rightarrow> 'x list" where
  "js_slice xs b e =
     (case e of
        None \<Rightarrow> drop b xs
      | Some k \<Rightarrow> take (k - b) (drop b xs))"

text \<open>\<open>Array.prototype.push.apply(diagnostics, this._diagnosticsMap[uri])\<close>: a missing
  entry adds nothing.\<close>

definition cached_diagnostics :: "'r DiagnosticsProvider \<Rightarrow> ParsedDocument \<Rightarrow> 'r Diagnostic list" where
  "cached_diagnostics dp d = (case diagnosticsMap dp (uri d) of None \<Rightarrow> [] | Some ds \<Rightarrow> ds)"

definition DiagnosticsProvider__diagnose ::
  "'r Externals \<Rightarrow> 'r DiagnosticsProvider \<Rightarrow> string
     \<Rightarrow> 'r DiagnosticsProvider \<times> (error + 'r Diagnostic list)" where
  "DiagnosticsProvider__diagnose ext dp u =
     (case DiagnosticsProvider__find dp u of
        (dp1, None) \<Rightarrow> (dp1, Inl TypeError)
      | (dp1, Some doc) \<Rightarrow>
          (case ParsedDocument_traverse doc ErrorVisitor [] of
             (Some e, parseErrors) \<Rightarrow> (dp1, Inl e)
           | (None, parseErrors) \<Rightarrow>
               (let diagnostics = map (\<lambda>err. parseErrorToDiagnostic ext err doc) parseErrors;
                    dp2 = dp1\<lparr>diagnosticsMap := (diagnosticsMap dp1)(u \<mapsto> diagnostics)\<rparr>;
                    diagnostics' = concat (map (cached_diagnostics dp2) (docs dp2))
                in (dp2, Inr (js_slice diagnostics' 0 (maxItems_private dp2))))))"

text \<open>\<open>_onParsedDocumentChanged\<close>, the handler the debouncers call: the result is the
  argument it hands to \<open>_publish.trigger\<close>, the URI and the diagnostics list. The
  subscribers of the two events are outside the provider and are not run here.\<close>

definition DiagnosticsProvider__onParsedDocumentChanged ::
  "'r Externals \<Rightarrow> 'r DiagnosticsProvider \<Rightarrow> ParsedDocument
     \<Rightarrow> 'r DiagnosticsProvider \<times> (error + string \<times> 'r Diagnostic list)" where
  "DiagnosticsProvider__onParsedDocumentChanged ext dp parsedDocument =
     (case DiagnosticsProvider__diagnose ext dp (uri parsedDocument) of
        (dp', Inl e) \<Rightarrow> (dp', Inl e)
      | (dp', Inr diagnostics) \<Rightarrow> (dp', Inr (uri parsedDocument, diagnostics)))"

section \<open>Inputs used in the evaluations below\<close>

definition doc101 :: ParsedDocument where
  "doc101 =
     \<lparr>uri = ''a.php'', changeEvent = Event_new,
      parseTree =
        Node (Phrase (Some (replicate 101 \<lparr>unexpected = \<lparr>tokenType = 0, offset = 0, len = 1\<rparr>\<rparr>)))
             (Some [])\<rparr>"

definition docB :: ParsedDocument where
  "docB = \<lparr>uri = ''b.php'', changeEvent = Event_new, parseTree = Node (Phrase None) None\<rparr>"

definition root1 :: "nat tree" where
  "root1 = Node 0 (Some [Node 1 None])"

definition par :: "nat tree" where
  "par = Node 0 (Some [Node 1 None, Node 2 None])"

text \<open>A visitor with both hooks that never halts and keeps no state.\<close>

definition plain_visitor :: "(nat, unit) TreeVisitor" where
  "plain_visitor =
     \<lparr>haltTraverse = (\<lambda>s. False),
      preOrder = Some (\<lambda>n sp s. (True, s)),
      postOrder = Some (\<lambda>n sp s. s)\<rparr>"

text \<open>A visitor that counts its preOrder calls and sets the flag at the second.\<close>

definition count_visitor :: "(nat, nat) TreeVisitor" where
  "count_visitor =
     \<lparr>haltTraverse = (\<lambda>s. 2 \<le> s),
      preOrder = Some (\<lambda>n sp s. (True, s + 1)),
      postOrder = Some (\<lambda>n sp s. s)\<rparr>"

text \<open>Handler \<open>0\<close> subscribes handler \<open>1\<close> when it runs; the other handlers do nothing.\<close>

definition subscribing_handler :: "nat \<Rightarrow> unit \<Rightarrow> nat Event \<times> unit \<Rightarrow> nat Event \<times> unit" where
  "subscribing_handler h args st =
     (if h = 0 then (fst (Event_subscribe (fst st) 1), snd st) else st)"

section \<open>Notions used in the statements\<close>

text \<open>The hook calls a traversal made, as \<open>recording\<close> wrote them down.\<close>

definition hook_log ::
  "error option \<times> (('a hook_call \<times> bool) list \<times> 's) \<Rightarrow> ('a hook_call \<times> bool) list" where
  "hook_log r = fst (snd r)"

definition unhalted_calls :: "('a hook_call \<times> bool) list \<times> 's \<Rightarrow> bool" where
  "unhalted_calls st = list_all (\<lambda>e. \<not> snd e) (fst st)"

text \<open>The nodes of a subtree in visiting order, each with its ancestors from the root
  downward, \<open>anc\<close> being the ancestors of the subtree's root.\<close>

fun with_ancestors ::
    "'a tree option list \<Rightarrow> 'a tree \<Rightarrow> ('a tree option \<times> 'a tree option list) list"
  and with_ancestors_list ::
    "'a tree option list \<Rightarrow> 'a tree list \<Rightarrow> ('a tree option \<times> 'a tree option list) list"
where
  "with_ancestors anc (Node a ch) =
     (Some (Node a ch), anc) #
       (case ch of
          None \<Rightarrow> []
        | Some cs \<Rightarrow> with_ancestors_list (anc @ [Some (Node a ch)]) cs)"
| "with_ancestors_list anc [] = []"
| "with_ancestors_list anc (c # cs) = with_ancestors anc c @ with_ancestors_list anc cs"

text \<open>As \<open>hooks_preserve\<close>, for hooks called on a node and spine in \<open>A\<close>.\<close>

definition hooks_preserve_at ::
  "('a, 's) TreeVisitor \<Rightarrow> ('s \<Rightarrow> bool) \<Rightarrow> ('a tree option \<times> 'a tree option list) set
     \<Rightarrow> bool" where
  "hooks_preserve_at v I A \<longleftrightarrow>
     (\<forall>f n sp s. preOrder v = Some f \<longrightarrow> I s \<longrightarrow> \<not> haltTraverse v s \<longrightarrow> (n, sp) \<in> A
        \<longrightarrow> I (snd (f n sp s))) \<and>
     (\<forall>g n sp s. postOrder v = Some g \<longrightarrow> I s \<longrightarrow> \<not> haltTraverse v s \<longrightarrow> (n, sp) \<in> A
        \<longrightarrow> I (g n sp s))"

fun call_target :: "'a hook_call \<Rightarrow> 'a tree option \<times> 'a tree option list" where
  "call_target (PreOrderCall n sp) = (n, sp)"
| "call_target (PostOrderCall n sp) = (n, sp)"

definition recorded_within ::
  "('a tree option \<times> 'a tree option list) set \<Rightarrow> ('a hook_call \<times> bool) list \<times> 's \<Rightarrow> bool" where
  "recorded_within A st = list_all (\<lambda>e. call_target (fst e) \<in> A) (fst st)"

text \<open>The first node of a subtree, in depth-first preorder, that satisfies \<open>p\<close>, as the path
  to it: \<open>anc\<close>, then the nodes from the subtree's root down to the match.\<close>

fun first_match ::
    "('a tree option \<Rightarrow> bool) \<Rightarrow> 'a tree option list \<Rightarrow> 'a tree \<Rightarrow> 'a tree option list option"
  and first_match_list ::
    "('a tree option \<Rightarrow> bool) \<Rightarrow> 'a tree option list \<Rightarrow> 'a tree list
       \<Rightarrow> 'a tree option list option"
where
  "first_match p anc (Node a ch) =
     (if p (Some (Node a ch)) then Some (anc @ [Some (Node a ch)])
      else (case ch of
              None \<Rightarrow> None
            | Some cs \<Rightarrow> first_match_list p (anc @ [Some (Node a ch)]) cs))"
| "first_match_list p anc [] = None"
| "first_match_list p anc (c # cs) =
     (case first_match p anc c of Some f \<Rightarrow> Some f | None \<Rightarrow> first_match_list p anc cs)"

fun preorder_nodes :: "'a tree \<Rightarrow> 'a tree list"
  and preorder_nodes_list :: "'a tree list \<Rightarrow> 'a tree list"
where
  "preorder_nodes (Node a ch) =
     Node a ch # (case ch of None \<Rightarrow> [] | Some cs \<Rightarrow> preorder_nodes_list cs)"
| "preorder_nodes_list [] = []"
| "preorder_nodes_list (c # cs) = preorder_nodes c @ preorder_nodes_list cs"

text \<open>What a trigger leaves: the subscriber list and the handlers it invoked, in order.\<close>

definition invoked :: "('h Event \<times> ('h list \<times> 'w)) option \<Rightarrow> ('h list \<times> 'h list) option" where
  "invoked r = map_option (\<lambda>st. (subscribed (fst st), fst (snd st))) r"

text \<open>Handlers that do nothing to the event but subscribe: running \<open>h\<close> appends the
  handlers \<open>adds h\<close> to the subscriber list.\<close>

definition only_appends ::
  "('h \<Rightarrow> 'arg \<Rightarrow> 'h Event \<times> 'w \<Rightarrow> 'h Event \<times> 'w) \<Rightarrow> ('h \<Rightarrow> 'h list) \<Rightarrow> bool" where
  "only_appends run adds \<longleftrightarrow>
     (\<forall>h a st. subscribed (fst (run h a st)) = subscribed (fst st) @ adds h)"

text \<open>The state a \<open>handle(e)\<close> call at time \<open>t\<close> leaves: the handler's calls are still
  \<open>base\<close>, and there is one pending timeout, due at \<open>t + host_delay w\<close>, holding \<open>e\<close>.\<close>

definition pending_only ::
  "'h \<Rightarrow> nat \<Rightarrow> nat \<Rightarrow> 'e \<Rightarrow> (nat \<times> 'h \<times> 'e) list \<Rightarrow> ('h, 'e) Debounce \<times> ('h, 'e) Host
     \<Rightarrow> bool" where
  "pending_only h w t e base st \<longleftrightarrow>
     (case st of (d, host) \<Rightarrow>
        handler d = h \<and> wait_private d = w \<and> now host = t \<and> calls host = base \<and>
        timer d \<noteq> None \<and>
        timeouts host =
          [\<lparr>handle_id = the (timer d), due = t + host_delay w, later_handler = h,
            later_event = e\<rparr>])"

section \<open>Event: the unsubscribe token and the trigger loop\<close>

lemma splice1_beyond: "length xs \<le> index \<Longrightarrow> splice1 index xs = xs"
  by (simp add: splice1_def)

lemma splice1_within: "index < length xs \<Longrightarrow> length (splice1 index xs) = length xs - 1"
  by (simp add: splice1_def)

text \<open>
  C2. The token returned by \<open>subscribe(h)\<close> should remove exactly \<open>h\<close>, whatever was
  unsubscribed before. The code removes whatever stands at the index \<open>h\<close> had when it was
  subscribed. Subscribe handlers 1, 2 and 3, call the token of 1 and then the token of 2:
  the second call removes handler 3, handler 2 stays subscribed, and a later trigger
  invokes it.
\<close>

theorem unsubscribe_by_stale_index:
  "(case Event_subscribe Event_new (1::nat) of (e1, u1) \<Rightarrow>
    case Event_subscribe e1 2 of (e2, u2) \<Rightarrow>
    case Event_subscribe e2 3 of (e3, u3) \<Rightarrow>
      (subscribed e3,
       subscribed (Unsubscribe_call u1 e3),
       subscribed (Unsubscribe_call u2 (Unsubscribe_call u1 e3)),
       invoked (Event_trigger (logged (\<lambda>h args st. st)) ()
                  (Unsubscribe_call u2 (Unsubscribe_call u1 e3), ([], ())))))
   = ([1, 2, 3], [2, 3], [2], Some ([2], [2]))"
  by (simp add: Event_subscribe_def Event_new_def Unsubscribe_call_def splice1_def
      Event_trigger_def trigger_loop.simps logged_def invoked_def)

lemma logged_step:
  assumes "only_appends run adds"
  shows "\<exists>ev' w'. logged run h a (ev, (lg, w)) = (ev', (lg @ [h], w')) \<and> subscribed ev' = subscribed ev @ adds h"
proof -
  obtain ev' w' where r: "run h a (ev, w) = (ev', w')" by fastforce
  have "subscribed (fst (run h a (ev, w))) = subscribed (fst (ev, w)) @ adds h"
    using assms unfolding only_appends_def by blast
  then have "subscribed ev' = subscribed ev @ adds h" using r by simp
  then show ?thesis using r by (simp add: logged_def)
qed

lemma loop_terminal:
  assumes ap: "only_appends run adds"
  shows "k = length (subscribed ev) - n \<Longrightarrow> n \<le> length (subscribed ev) \<Longrightarrow>
         (\<And>g. g \<in> set (drop n (subscribed ev)) \<Longrightarrow> adds g = []) \<Longrightarrow>
         invoked (trigger_loop (logged run) a n (ev, (lg, w)))
           = Some (subscribed ev, lg @ drop n (subscribed ev))"
proof (induction k arbitrary: n ev lg w)
  case 0
  then show ?case
    by (subst trigger_loop.simps) (simp add: invoked_def)
next
  case (Suc k)
  then have lt: "n < length (subscribed ev)" by simp
  define h where "h = subscribed ev ! n"
  have hin: "h \<in> set (drop n (subscribed ev))" using lt h_def
    by (metis Cons_nth_drop_Suc list.set_intros(1))
  then have ah: "adds h = []" using Suc.prems(3) by blast
  obtain ev' w' where st: "logged run h a (ev, (lg, w)) = (ev', (lg @ [h], w'))"
    and sub: "subscribed ev' = subscribed ev @ adds h"
    using logged_step[OF ap, of h a ev lg w] by blast
  have sub': "subscribed ev' = subscribed ev" using sub ah by simp
  have ih: "invoked (trigger_loop (logged run) a (n + 1) (ev', (lg @ [h], w')))
           = Some (subscribed ev', (lg @ [h]) @ drop (n + 1) (subscribed ev'))"
  proof (rule Suc.IH)
    show "k = length (subscribed ev') - (n + 1)" using Suc.prems(1) sub' by simp
    show "n + 1 \<le> length (subscribed ev')" using lt sub' by simp
    fix g assume "g \<in> set (drop (n + 1) (subscribed ev'))"
    then have "g \<in> set (drop n (subscribed ev))" using sub'
      by (metis Suc_eq_plus1 in_set_dropD drop_drop add.commute)
    then show "adds g = []" using Suc.prems(3) by blast
  qed
  have d: "drop n (subscribed ev) = h # drop (n + 1) (subscribed ev)"
    using lt h_def by (simp add: Cons_nth_drop_Suc)
  have "trigger_loop (logged run) a n (ev, (lg, w))
          = trigger_loop (logged run) a (n + 1) (ev', (lg @ [h], w'))"
    using lt st h_def by (subst trigger_loop.simps) simp
  then show ?case using ih sub' d by simp
qed

lemma loop_original:
  assumes ap: "only_appends run adds"
  shows "subscribed ev = P @ R @ T \<Longrightarrow> length P = n \<Longrightarrow>
         (\<And>g. g \<in> set T \<Longrightarrow> adds g = []) \<Longrightarrow>
         (\<And>h g. h \<in> set R \<Longrightarrow> g \<in> set (adds h) \<Longrightarrow> adds g = []) \<Longrightarrow>
         invoked (trigger_loop (logged run) a n (ev, (lg, w)))
           = Some (P @ R @ T @ concat (map adds R), lg @ R @ T @ concat (map adds R))"
proof (induction R arbitrary: P T n ev lg w)
  case Nil
  have "invoked (trigger_loop (logged run) a n (ev, (lg, w)))
           = Some (subscribed ev, lg @ drop n (subscribed ev))"
  proof (rule loop_terminal[OF ap refl])
    show "n \<le> length (subscribed ev)" using Nil.prems(1,2) by simp
    fix g assume "g \<in> set (drop n (subscribed ev))"
    then have "g \<in> set T" using Nil.prems(1,2) by simp
    then show "adds g = []" using Nil.prems(3) by blast
  qed
  then show ?case using Nil.prems(1,2) by simp
next
  case (Cons h R)
  have lt: "n < length (subscribed ev)" using Cons.prems(1,2) by simp
  have hn: "subscribed ev ! n = h" using Cons.prems(1,2) by (simp add: nth_append)
  obtain ev' w' where st: "logged run h a (ev, (lg, w)) = (ev', (lg @ [h], w'))"
    and sub: "subscribed ev' = subscribed ev @ adds h"
    using logged_step[OF ap, of h a ev lg w] by blast
  have ih: "invoked (trigger_loop (logged run) a (n + 1) (ev', (lg @ [h], w')))
      = Some ((P @ [h]) @ R @ (T @ adds h) @ concat (map adds R),
              (lg @ [h]) @ R @ (T @ adds h) @ concat (map adds R))"
  proof (rule Cons.IH)
    show "subscribed ev' = (P @ [h]) @ R @ T @ adds h" using sub Cons.prems(1) by simp
    show "length (P @ [h]) = n + 1" using Cons.prems(2) by simp
    show "\<And>g. g \<in> set (T @ adds h) \<Longrightarrow> adds g = []"
      using Cons.prems(3) Cons.prems(4)[of h] by auto
    show "\<And>h' g. h' \<in> set R \<Longrightarrow> g \<in> set (adds h') \<Longrightarrow> adds g = []"
      using Cons.prems(4) by auto
  qed
  have "trigger_loop (logged run) a n (ev, (lg, w))
          = trigger_loop (logged run) a (n + 1) (ev', (lg @ [h], w'))"
    using lt st hn by (subst trigger_loop.simps) simp
  then show ?case using ih by simp
qed

text \<open>
  C6, as stated: a handler subscribed during a trigger call is not invoked by that call.
  It fails: with handler 0 subscribed, and handler 0 subscribing handler 1 when it runs,
  one trigger invokes 0 and then 1.
\<close>

theorem trigger_invokes_new_subscriber:
  "Event_trigger (logged subscribing_handler) () (\<lparr>subscribed = [0]\<rparr>, ([], ()))
     = Some (\<lparr>subscribed = [0, 1]\<rparr>, ([0, 1], ()))"
  by (simp add: Event_trigger_def trigger_loop.simps logged_def subscribing_handler_def
      Event_subscribe_def)

text \<open>
  C6, amended: the loop reads the length of the live subscriber list before every step.
  When the handlers do nothing to the event but subscribe, and the handlers subscribed
  during the call subscribe none themselves, the trigger returns, having invoked first the
  handlers subscribed before it began, in subscription order, and then every handler
  subscribed during the call, in the order they were subscribed.
\<close>

theorem trigger_invokes_live_list:
  assumes "only_appends run adds"
    and "\<forall>h \<in> set (subscribed ev). \<forall>g \<in> set (adds h). adds g = []"
  shows "invoked (Event_trigger (logged run) a (ev, ([], w)))
           = Some (subscribed ev @ concat (map adds (subscribed ev)),
                   subscribed ev @ concat (map adds (subscribed ev)))"
  using loop_original[OF assms(1), where ev=ev and P="[]" and R="subscribed ev" and T="[]" and n=0 and a=a and lg="[]" and w=w] assms(2)
  by (simp add: Event_trigger_def)

theorem trigger_invokes_live_list_witness:
  "only_appends subscribing_handler (\<lambda>h. if h = 0 then [1] else []) \<and>
   invoked (Event_trigger (logged subscribing_handler) () (\<lparr>subscribed = [0, 2]\<rparr>, ([], ())))
     = Some ([0, 2, 1], [0, 2, 1])"
proof -
  have a: "only_appends subscribing_handler (\<lambda>h. if h = 0 then [1] else [])"
    by (simp add: only_appends_def subscribing_handler_def Event_subscribe_def)
  have b: "\<forall>h \<in> set (subscribed \<lparr>subscribed = [0::nat, 2]\<rparr>).
             \<forall>g \<in> set (if h = 0 then [1::nat] else []). (if g = 0 then [1::nat] else []) = []"
    by simp
  show ?thesis
    using a trigger_invokes_live_list[OF a b, of "()" "()"] by simp
qed

section \<open>TreeTraverser: halting\<close>

text \<open>A property of the visitor's state that the hooks keep whenever they are called with
  the flag unset is kept by the traversal: no hook is called with the flag set.\<close>

lemma hooks_preserve_at_mono:
  "hooks_preserve_at v I A \<Longrightarrow> B \<subseteq> A \<Longrightarrow> hooks_preserve_at v I B"
  unfolding hooks_preserve_at_def by blast

lemma inv_traverse_at:
  shows "hooks_preserve_at v I (set (with_ancestors sp t)) \<Longrightarrow> I s \<Longrightarrow>
           I (snd (TreeTraverser__traverse_node t v sp s)) \<and>
           (\<not> haltTraverse v (snd (TreeTraverser__traverse_node t v sp s)) \<longrightarrow>
              fst (TreeTraverser__traverse_node t v sp s) = sp)"
    and "hooks_preserve_at v I (set (with_ancestors_list sp ts)) \<Longrightarrow> I s \<Longrightarrow> \<not> haltTraverse v s \<Longrightarrow>
           I (snd (snd (traverse_children ts v sp s))) \<and>
           (fst (traverse_children ts v sp s) \<longrightarrow>
              haltTraverse v (snd (snd (traverse_children ts v sp s)))) \<and>
           (\<not> fst (traverse_children ts v sp s) \<longrightarrow>
              \<not> haltTraverse v (snd (snd (traverse_children ts v sp s))) \<and>
              fst (snd (traverse_children ts v sp s)) = sp)"
proof (induction t v sp s and ts v sp s rule: TreeTraverser__traverse_node_traverse_children.induct)
  case (1 a ch visitor sp s)
  note hp = \<open>hooks_preserve_at visitor I (set (with_ancestors sp (Node a ch)))\<close>
  have here: "(Some (Node a ch), sp) \<in> set (with_ancestors sp (Node a ch))" by simp
  show ?case
  proof (cases "haltTraverse visitor s")
    case True
    then show ?thesis using 1 by simp
  next
    case nh: False
    obtain descend s1 where p:
      "(case preOrder visitor of None \<Rightarrow> (True, s) | Some pre \<Rightarrow> pre (Some (Node a ch)) sp s) = (descend, s1)"
      by fastforce
    have I1: "I s1"
    proof (cases "preOrder visitor")
      case None
      then show ?thesis using p 1(3) by simp
    next
      case (Some f)
      then have "I (snd (f (Some (Node a ch)) sp s))"
        using hp 1(3) nh here unfolding hooks_preserve_at_def by blast
      then show ?thesis using p Some by simp
    qed
    show ?thesis
    proof (cases "preOrder visitor \<noteq> None \<and> haltTraverse visitor s1")
      case True
      then show ?thesis using nh p I1 by simp
    next
      case nh1: False
      have nh1': "\<not> haltTraverse visitor s1"
        using nh1 nh p by (cases "preOrder visitor") auto
      obtain returned sp2 s2 where r:
        "(case ch of
            Some cs \<Rightarrow>
              if descend then
                (case traverse_children cs visitor (sp @ [Some (Node a ch)]) s1 of
                   (True, sp', s') \<Rightarrow> (True, sp', s')
                 | (False, sp', s') \<Rightarrow> (False, butlast sp', s'))
              else (False, sp, s1)
          | None \<Rightarrow> (False, sp, s1)) = (returned, sp2, s2)"
        using prod_cases3 by blast
      have I2: "I s2 \<and> (returned \<longrightarrow> haltTraverse visitor s2) \<and>
                (\<not> returned \<longrightarrow> \<not> haltTraverse visitor s2 \<and> sp2 = sp)"
      proof (cases "ch")
        case None
        then show ?thesis using r I1 nh1' by auto
      next
        case (Some cs)
        show ?thesis
        proof (cases descend)
          case False
          then show ?thesis using r I1 nh1' Some by auto
        next
          case True
          have sub: "set (with_ancestors_list (sp @ [Some (Node a ch)]) cs) \<subseteq> set (with_ancestors sp (Node a ch))"
            using Some by auto
          have hp': "hooks_preserve_at visitor I (set (with_ancestors_list (sp @ [Some (Node a ch)]) cs))"
            using hooks_preserve_at_mono[OF hp sub] .
          obtain b sp' s' where t: "traverse_children cs visitor (sp @ [Some (Node a ch)]) s1 = (b, sp', s')"
            using prod_cases3 by blast
          have "I s' \<and> (b \<longrightarrow> haltTraverse visitor s') \<and>
                (\<not> b \<longrightarrow> \<not> haltTraverse visitor s' \<and> sp' = sp @ [Some (Node a ch)])"
            using 1(1)[OF nh p[symmetric] refl nh1 Some True hp' I1 nh1'] t by simp
          then show ?thesis using r Some True t by (cases b) auto
        qed
      qed
      show ?thesis
      proof (cases returned)
        case True
        then show ?thesis using nh p nh1 nh1' r I2 I1 by simp
      next
        case False
        then have nh2: "\<not> haltTraverse visitor s2" and sp2: "sp2 = sp" using I2 by simp_all
        then have "\<And>g. postOrder visitor = Some g \<Longrightarrow> I (g (Some (Node a ch)) sp2 s2)"
          using hp I2 here unfolding hooks_preserve_at_def by blast
        then show ?thesis using nh p nh1 nh1' r I2 I1 False sp2
          by (cases "postOrder visitor") auto
      qed
    qed
  qed
next
  case (2 visitor sp s)
  then show ?case by simp
next
  case (3 c cs visitor sp s)
  note hp = \<open>hooks_preserve_at visitor I (set (with_ancestors_list sp (c # cs)))\<close>
  have hpc: "hooks_preserve_at visitor I (set (with_ancestors sp c))"
    by (rule hooks_preserve_at_mono[OF hp]) simp
  have hpcs: "hooks_preserve_at visitor I (set (with_ancestors_list sp cs))"
    by (rule hooks_preserve_at_mono[OF hp]) simp
  obtain sp1 s1 where c: "TreeTraverser__traverse_node c visitor sp s = (sp1, s1)" by fastforce
  have I1: "I s1 \<and> (\<not> haltTraverse visitor s1 \<longrightarrow> sp1 = sp)" using 3(1)[OF hpc 3(4)] c by simp
  show ?case
  proof (cases "haltTraverse visitor s1")
    case True
    then show ?thesis using c I1 by simp
  next
    case False
    then have "sp1 = sp" using I1 by simp
    then show ?thesis using 3(2)[OF c[symmetric] False] hpcs I1 False c by simp
  qed
qed

lemma hooks_preserve_anywhere: "hooks_preserve v I \<Longrightarrow> hooks_preserve_at v I A"
  unfolding hooks_preserve_def hooks_preserve_at_def by blast

lemma inv_traverse:
  shows "hooks_preserve v I \<Longrightarrow> I s \<Longrightarrow> I (snd (TreeTraverser__traverse_node t v sp s))"
    and "hooks_preserve v I \<Longrightarrow> I s \<Longrightarrow> \<not> haltTraverse v s \<Longrightarrow>
           I (snd (snd (traverse_children ts v sp s))) \<and>
           (\<not> fst (traverse_children ts v sp s) \<longrightarrow>
              \<not> haltTraverse v (snd (snd (traverse_children ts v sp s))))"
proof -
  assume hp: "hooks_preserve v I" and i: "I s"
  have "hooks_preserve_at v I (set (with_ancestors sp t))"
    using hp by (rule hooks_preserve_anywhere)
  from inv_traverse_at(1)[OF this i]
  show "I (snd (TreeTraverser__traverse_node t v sp s))" by simp
next
  assume hp: "hooks_preserve v I" and i: "I s" and nh: "\<not> haltTraverse v s"
  have "hooks_preserve_at v I (set (with_ancestors_list sp ts))"
    using hp by (rule hooks_preserve_anywhere)
  from inv_traverse_at(2)[OF this i nh]
  show "I (snd (snd (traverse_children ts v sp s))) \<and>
           (\<not> fst (traverse_children ts v sp s) \<longrightarrow>
              \<not> haltTraverse v (snd (snd (traverse_children ts v sp s))))"
    by simp
qed

lemma recording_preserves_unhalted: "hooks_preserve (recording v) unhalted_calls"
  by (auto simp: hooks_preserve_def recording_def unhalted_calls_def)

lemma halted_at_entry: "haltTraverse v s \<Longrightarrow> TreeTraverser__traverse_node t v sp s = (sp, s)"
  by (cases t) simp

lemma sibling_skipped:
  "haltTraverse v (snd (TreeTraverser__traverse_node c v sp s)) \<Longrightarrow>
     traverse_children (c # cs) v sp s = (True, TreeTraverser__traverse_node c v sp s)"
  by (cases "TreeTraverser__traverse_node c v sp s") simp


text \<open>The recording visitor changes nothing of the traversal it records.\<close>

lemma recording_simps:
  "haltTraverse (recording v) st = haltTraverse v (snd st)"
  "preOrder v = None \<Longrightarrow> preOrder (recording v) = None"
  "postOrder v = None \<Longrightarrow> postOrder (recording v) = None"
  "preOrder v = Some f \<Longrightarrow> preOrder (recording v) = Some (\<lambda>n sp st.
           (fst (f n sp (snd st)),
            (fst st @ [(PreOrderCall n sp, haltTraverse v (snd st))], snd (f n sp (snd st)))))"
  "postOrder v = Some g \<Longrightarrow> postOrder (recording v) = Some (\<lambda>n sp st.
           (fst st @ [(PostOrderCall n sp, haltTraverse v (snd st))], g n sp (snd st)))"
  by (simp_all add: recording_def)

lemma recording_simulates:
  shows "map_prod id snd (TreeTraverser__traverse_node t (recording v) sp (lg, s)) = TreeTraverser__traverse_node t v sp s"
    and "map_prod id (map_prod id snd) (traverse_children ts (recording v) sp (lg, s)) = traverse_children ts v sp s"
proof (induction t v sp s and ts v sp s arbitrary: lg and lg rule: TreeTraverser__traverse_node_traverse_children.induct)
  case (1 a ch visitor sp s)
  show ?case
  proof (cases "haltTraverse visitor s")
    case True
    then show ?thesis by (simp add: recording_simps)
  next
    case nh: False
    obtain descend s1 where p:
      "(case preOrder visitor of None \<Rightarrow> (True, s) | Some pre \<Rightarrow> pre (Some (Node a ch)) sp s) = (descend, s1)"
      by fastforce
    define lg1 where "lg1 = (case preOrder visitor of None \<Rightarrow> lg | Some pre \<Rightarrow> lg @ [(PreOrderCall (Some (Node a ch)) sp, haltTraverse visitor s)])"
    have p': "(case preOrder (recording visitor) of None \<Rightarrow> (True, (lg, s)) | Some pre \<Rightarrow> pre (Some (Node a ch)) sp (lg, s)) = (descend, (lg1, s1))"
      using p by (cases "preOrder visitor") (auto simp: recording_simps lg1_def)
    have pn: "(preOrder (recording visitor) \<noteq> None) = (preOrder visitor \<noteq> None)"
      by (cases "preOrder visitor") (auto simp: recording_simps)
    show ?thesis
    proof (cases "preOrder visitor \<noteq> None \<and> haltTraverse visitor s1")
      case True
      then show ?thesis using nh p p' pn by (simp add: recording_simps)
    next
      case nh1: False
      have ih: "map_prod id (map_prod id snd) (traverse_children cs (recording visitor) (sp @ [Some (Node a ch)]) (lg1, s1))
           = traverse_children cs visitor (sp @ [Some (Node a ch)]) s1" if "ch = Some cs" "descend" for cs
        using 1[OF nh p[symmetric] refl nh1 that] .
      obtain returned sp2 s2 where r:
        "(case ch of
            Some cs \<Rightarrow>
              if descend then
                (case traverse_children cs visitor (sp @ [Some (Node a ch)]) s1 of
                   (True, sp', s') \<Rightarrow> (True, sp', s')
                 | (False, sp', s') \<Rightarrow> (False, butlast sp', s'))
              else (False, sp, s1)
          | None \<Rightarrow> (False, sp, s1)) = (returned, sp2, s2)"
        using prod_cases3 by blast
      have "\<exists>lg2. (case ch of
            Some cs \<Rightarrow>
              if descend then
                (case traverse_children cs (recording visitor) (sp @ [Some (Node a ch)]) (lg1, s1) of
                   (True, sp', s') \<Rightarrow> (True, sp', s')
                 | (False, sp', s') \<Rightarrow> (False, butlast sp', s'))
              else (False, sp, (lg1, s1))
          | None \<Rightarrow> (False, sp, (lg1, s1))) = (returned, sp2, (lg2, s2))"
      proof (cases ch)
        case None
        then show ?thesis using r by simp
      next
        case (Some cs)
        show ?thesis
        proof (cases descend)
          case True
          obtain b sp' lg' s' where t: "traverse_children cs (recording visitor) (sp @ [Some (Node a ch)]) (lg1, s1) = (b, sp', (lg', s'))"
            by (metis prod_cases3)
          then have "traverse_children cs visitor (sp @ [Some (Node a ch)]) s1 = (b, sp', s')"
            using ih[OF Some True] by simp
          then show ?thesis using r t Some True by (cases b) auto
        next
          case False
          then show ?thesis using r Some by simp
        qed
      qed
      then obtain lg2 where r': "(case ch of
            Some cs \<Rightarrow>
              if descend then
                (case traverse_children cs (recording visitor) (sp @ [Some (Node a ch)]) (lg1, s1) of
                   (True, sp', s') \<Rightarrow> (True, sp', s')
                 | (False, sp', s') \<Rightarrow> (False, butlast sp', s'))
              else (False, sp, (lg1, s1))
          | None \<Rightarrow> (False, sp, (lg1, s1))) = (returned, sp2, (lg2, s2))" by blast
      show ?thesis using nh p p' pn nh1 r r'
        by (cases "postOrder visitor") (auto simp: recording_simps)
    qed
  qed
next
  case (2 visitor sp s)
  show ?case by simp
next
  case (3 c cs visitor sp s)
  obtain sp1 lg1 s1 where c: "TreeTraverser__traverse_node c (recording visitor) sp (lg, s) = (sp1, (lg1, s1))"
    by (metis prod_cases3)
  then have c': "TreeTraverser__traverse_node c visitor sp s = (sp1, s1)"
    using 3(1)[of lg] by simp
  show ?case
  proof (cases "haltTraverse visitor s1")
    case True
    then show ?thesis using c c' by (simp add: recording_simps)
  next
    case False
    then show ?thesis using c c' 3(2)[OF c'[symmetric] False, of lg1] by (simp add: recording_simps)
  qed
qed

text \<open>The same facts for \<open>_traverse\<close> on any \<open>treeNode\<close>, \<open>null\<close> included, and for
  \<open>traverse\<close>.\<close>

lemma halted_at_entry_any:
  "haltTraverse v s \<Longrightarrow> TreeTraverser__traverse treeNode v sp s = (None, sp, s)"
  by (cases treeNode) (simp_all add: TreeTraverser__traverse_def halted_at_entry)

lemma inv_traverse_any:
  assumes "hooks_preserve v I" "I s"
  shows "I (snd (snd (TreeTraverser__traverse treeNode v sp s)))"
proof (cases treeNode)
  case (Some t)
  then show ?thesis using inv_traverse(1)[OF assms] by (simp add: TreeTraverser__traverse_def)
next
  case None
  show ?thesis
  proof (cases "haltTraverse v s")
    case True
    then show ?thesis using assms(2) None by (simp add: TreeTraverser__traverse_def)
  next
    case nh: False
    show ?thesis
    proof (cases "preOrder v")
      case no_hook: None
      then show ?thesis using assms(2) None nh by (simp add: TreeTraverser__traverse_def)
    next
      case (Some f)
      have "I (snd (f None sp s))"
        using assms nh Some unfolding hooks_preserve_def by blast
      then show ?thesis using None nh Some
        by (cases "f None sp s") (simp add: TreeTraverser__traverse_def)
    qed
  qed
qed

lemma recording_simulates_any:
  "map_prod id (map_prod id snd) (TreeTraverser__traverse treeNode (recording v) sp (lg, s))
     = TreeTraverser__traverse treeNode v sp s"
proof (cases treeNode)
  case (Some t)
  then show ?thesis using recording_simulates(1)[of t v sp lg s]
    by (simp add: TreeTraverser__traverse_def)
next
  case None
  show ?thesis
  proof (cases "preOrder v")
    case no_hook: None
    then show ?thesis using None
      by (simp add: TreeTraverser__traverse_def recording_simps)
  next
    case (Some f)
    then show ?thesis using None
      by (cases "f None sp s") (simp add: TreeTraverser__traverse_def recording_simps)
  qed
qed

lemma recording_simulates_traverse:
  "map_prod id snd (TreeTraverser_traverse tt (recording v) (lg, s)) = TreeTraverser_traverse tt v s"
  using recording_simulates_any[of "node tt" v "spine tt" lg s]
  by (cases "TreeTraverser__traverse (node tt) (recording v) (spine tt) (lg, s)";
      cases "TreeTraverser__traverse (node tt) v (spine tt) s")
     (auto simp: TreeTraverser_traverse_def)

text \<open>
  C4. Once \<open>haltTraverse\<close> is set, the traversal calls no further hook and enters no further
  sibling subtree: a traversal started with the flag set returns with no error and with
  the visitor's state as it was; every hook call of a traversal finds the flag unset when
  it is entered (from \<open>traverse\<close> and from \<open>_traverse\<close> alike, whatever node or \<open>null\<close> they
  start at), so the hook that sets the flag is the last one called; and when the flag is
  set on return from a child, the loop over the children returns there, whatever siblings
  remain.
\<close>

theorem halt_stops_traversal:
  "(haltTraverse v s0 \<longrightarrow> TreeTraverser_traverse tt v s0 = (None, s0)) \<and>
   (\<forall>e \<in> set (hook_log (TreeTraverser_traverse tt (recording v) ([], s))). \<not> snd e) \<and>
   (\<forall>e \<in> set (fst (snd (snd (TreeTraverser__traverse treeNode (recording v) sp ([], s))))).
      \<not> snd e) \<and>
   (haltTraverse v (snd (TreeTraverser__traverse_node c v sp1 s1)) \<longrightarrow>
      traverse_children (c # cs) v sp1 s1 = (True, TreeTraverser__traverse_node c v sp1 s1))"
proof (intro conjI impI)
  assume "haltTraverse v s0"
  then show "TreeTraverser_traverse tt v s0 = (None, s0)"
    by (simp add: TreeTraverser_traverse_def halted_at_entry_any)
next
  have u0: "unhalted_calls ([], s)" by (simp add: unhalted_calls_def)
  have a: "unhalted_calls (snd (snd (TreeTraverser__traverse n (recording v) sp' ([], s))))"
    for n sp'
    using inv_traverse_any[OF recording_preserves_unhalted u0] .
  show "\<forall>e \<in> set (fst (snd (snd (TreeTraverser__traverse treeNode (recording v) sp ([], s))))).
          \<not> snd e"
    using a[of treeNode sp] by (simp add: unhalted_calls_def list_all_iff)
  show "\<forall>e \<in> set (hook_log (TreeTraverser_traverse tt (recording v) ([], s))). \<not> snd e"
    using a[of "node tt" "spine tt"]
    by (cases "TreeTraverser__traverse (node tt) (recording v) (spine tt) ([], s)")
       (simp add: hook_log_def TreeTraverser_traverse_def unhalted_calls_def list_all_iff)
next
  assume "haltTraverse v (snd (TreeTraverser__traverse_node c v sp1 s1))"
  then show "traverse_children (c # cs) v sp1 s1 = (True, TreeTraverser__traverse_node c v sp1 s1)"
    by (rule sibling_skipped)
qed

theorem halt_stops_traversal_witness:
  "haltTraverse count_visitor 2 \<and>
   TreeTraverser_traverse \<lparr>spine = [Some par]\<rparr> count_visitor 2 = (None, 2) \<and>
   hook_log (TreeTraverser_traverse \<lparr>spine = [Some par]\<rparr> (recording count_visitor) ([], 0))
     = [(PreOrderCall (Some par) [Some par], False),
        (PreOrderCall (Some (Node 1 None)) [Some par, Some par], False)] \<and>
   TreeTraverser_traverse \<lparr>spine = []\<rparr> (recording count_visitor) ([], 1)
     = (None, [(PreOrderCall None [], False)], 2) \<and>
   TreeTraverser__traverse None (recording count_visitor) [] ([], 0)
     = (Some TypeError, [], [(PreOrderCall None [], False)], 1) \<and>
   haltTraverse count_visitor
     (snd (TreeTraverser__traverse_node (Node 1 None) count_visitor [Some par] 1)) \<and>
   traverse_children [Node 1 None, Node 2 None] count_visitor [Some par] 1
     = (True, [Some par], 2)"
  using halt_stops_traversal[where v = count_visitor and ?s0.0 = 2
      and tt = "\<lparr>spine = [Some par]\<rparr>" and s = 0 and treeNode = None and sp = "[]"
      and c = "Node 1 None" and ?sp1.0 = "[Some par]" and ?s1.0 = 1 and cs = "[Node 2 None]"]
    halt_stops_traversal[where v = count_visitor and ?s0.0 = 2
      and tt = "\<lparr>spine = []\<rparr>" and s = 1 and treeNode = None and sp = "[]"
      and c = "Node 1 None" and ?sp1.0 = "[Some par]" and ?s1.0 = 1 and cs = "[Node 2 None]"]
  by (simp add: TreeTraverser_traverse_def TreeTraverser__traverse_def node_def hook_log_def
      recording_def count_visitor_def par_def)

section \<open>TreeTraverser: the spine\<close>

lemma recording_preserves_within: "hooks_preserve_at (recording v) (recorded_within A) A"
  by (auto simp: hooks_preserve_at_def recording_def recorded_within_def)

text \<open>\<open>_traverse\<close> extends the spine it is given correctly: started on the node \<open>t\<close> with the
  spine \<open>sp\<close>, it calls the hooks only on nodes of \<open>t\<close>, each with \<open>sp\<close> followed by the
  node's ancestors inside \<open>t\<close>.\<close>

lemma hooks_get_extended_spine:
  "list_all (\<lambda>e. call_target (fst e) \<in> set (with_ancestors sp t))
     (fst (snd (TreeTraverser__traverse_node t (recording v) sp ([], s))))"
proof -
  have "recorded_within (set (with_ancestors sp t)) ([], s)" by (simp add: recorded_within_def)
  from inv_traverse_at(1)[OF recording_preserves_within this]
  have "recorded_within (set (with_ancestors sp t))
               (snd (TreeTraverser__traverse_node t (recording v) sp ([], s)))"
    by simp
  then show ?thesis by (simp add: recorded_within_def)
qed

lemma with_ancestors_extend:
  shows "(m, anc) \<in> set (with_ancestors sp t) \<Longrightarrow> \<exists>r. anc = sp @ r"
    and "(m, anc) \<in> set (with_ancestors_list sp ts) \<Longrightarrow> \<exists>r. anc = sp @ r"
proof (induction sp t and sp ts rule: with_ancestors_with_ancestors_list.induct)
  case (1 sp a ch)
  show ?case
  proof (cases "(m, anc) = (Some (Node a ch), sp)")
    case True
    then show ?thesis by simp
  next
    case False
    then obtain cs where ch: "ch = Some cs"
      and m: "(m, anc) \<in> set (with_ancestors_list (sp @ [Some (Node a ch)]) cs)"
      using 1(2) by (cases ch) auto
    obtain r where "anc = (sp @ [Some (Node a ch)]) @ r" using 1(1)[OF ch m] by blast
    then show ?thesis by simp
  qed
next
  case (2 sp)
  then show ?case by simp
next
  case (3 sp c cs)
  then show ?case by auto
qed

text \<open>So every spine a hook receives from \<open>traverse\<close> begins with the traverser's own spine,
  whose last element is the start node itself.\<close>

lemma traverse_spines_contain_start:
  assumes "node tt = Some n"
  shows "last (spine tt) = Some n \<and>
         list_all (\<lambda>e. \<exists>r. snd (call_target (fst e)) = spine tt @ r)
           (hook_log (TreeTraverser_traverse tt (recording v) ([], s)))"
proof -
  have l: "last (spine tt) = Some n" using assms by (simp add: node_def split: if_splits)
  have "list_all (\<lambda>e. call_target (fst e) \<in> set (with_ancestors (spine tt) n))
          (fst (snd (TreeTraverser__traverse_node n (recording v) (spine tt) ([], s))))"
    by (rule hooks_get_extended_spine)
  then have "list_all (\<lambda>e. \<exists>r. snd (call_target (fst e)) = spine tt @ r)
          (fst (snd (TreeTraverser__traverse_node n (recording v) (spine tt) ([], s))))"
    unfolding list_all_iff using with_ancestors_extend(1)
    by (metis prod.collapse)
  then show ?thesis using l assms
    by (cases "TreeTraverser__traverse_node n (recording v) (spine tt) ([], s)")
       (simp add: hook_log_def TreeTraverser_traverse_def TreeTraverser__traverse_def)
qed

text \<open>
  C3. The spine handed to each hook should be the ancestors of the node visited, from the
  root downward. \<open>_traverse\<close> keeps to that when it is given the ancestors of its node
  (\<open>hooks_get_extended_spine\<close>), but \<open>traverse\<close> starts it at \<open>this.node\<close> with a copy of
  the whole \<open>this.spine\<close>, whose last element is that node
  (\<open>traverse_spines_contain_start\<close>), and \<open>_traverse\<close> pushes the node once more before
  its children. For the traverser on the root of a two-node tree: the hooks on the root
  receive the root itself as spine (it has no ancestor), and the hooks on its child receive
  the root twice (its only ancestor is the root, once).
\<close>

theorem hooks_receive_start_node_in_spine:
  "map_prod id (\<lambda>st. map fst (fst st))
     (TreeTraverser_traverse \<lparr>spine = [Some root1]\<rparr> (recording plain_visitor) ([], ()))
   = (None,
      [PreOrderCall (Some root1) [Some root1],
       PreOrderCall (Some (Node 1 None)) [Some root1, Some root1],
       PostOrderCall (Some (Node 1 None)) [Some root1, Some root1],
       PostOrderCall (Some root1) [Some root1]])"
  by (simp add: TreeTraverser_traverse_def TreeTraverser__traverse_def node_def recording_def
      plain_visitor_def root1_def)

text \<open>What the traversal with a \<open>FindVisitor\<close> computes.\<close>

lemma find_append:
  "List.find p (xs @ ys) = (case List.find p xs of Some x \<Rightarrow> Some x | None \<Rightarrow> List.find p ys)"
  by (induction xs) auto

lemma first_match_is_first:
  shows "map_option last (first_match p anc t)
           = map_option Some (List.find (\<lambda>n. p (Some n)) (preorder_nodes t))"
    and "map_option last (first_match_list p anc ts)
           = map_option Some (List.find (\<lambda>n. p (Some n)) (preorder_nodes_list ts))"
proof (induction p anc t and p anc ts rule: first_match_first_match_list.induct)
  case (1 p anc a ch)
  then show ?case by (cases ch) auto
next
  case (2 p anc)
  then show ?case by simp
next
  case (3 p anc c cs)
  then show ?case
    by (cases "first_match p anc c") (auto simp: find_append split: option.splits)
qed

lemma first_match_starts:
  shows "first_match p anc t = Some f \<Longrightarrow> \<exists>r. f = anc @ Some t # r"
    and "first_match_list p anc ts = Some f \<Longrightarrow> \<exists>r. f = anc @ r \<and> r \<noteq> []"
proof (induction p anc t and p anc ts rule: first_match_first_match_list.induct)
  case (1 p anc a ch)
  show ?case
  proof (cases "p (Some (Node a ch))")
    case True
    then show ?thesis using 1(2) by auto
  next
    case False
    then obtain cs where ch: "ch = Some cs"
      and m: "first_match_list p (anc @ [Some (Node a ch)]) cs = Some f"
      using 1(2) by (cases ch) auto
    obtain r where "f = (anc @ [Some (Node a ch)]) @ r" using 1(1)[OF False ch m] by blast
    then show ?thesis by simp
  qed
next
  case (2 p anc)
  then show ?case by simp
next
  case (3 p anc c cs)
  show ?case
  proof (cases "first_match p anc c")
    case None
    then show ?thesis using 3 by simp
  next
    case (Some g)
    then have "g = f" using 3(3) by simp
    then show ?thesis using 3(1) Some by blast
  qed
qed

lemma find_visitor_traverse:
  shows "\<not> halt st \<Longrightarrow>
           TreeTraverser__traverse_node t (FindVisitor p) sp st =
             (case first_match p sp t of
                None \<Rightarrow> (sp, st)
              | Some f \<Rightarrow> (butlast f, \<lparr>found = Some f, halt = True\<rparr>))"
    and "\<not> halt st \<Longrightarrow>
           traverse_children ts (FindVisitor p) sp st =
             (case first_match_list p sp ts of
                None \<Rightarrow> (False, sp, st)
              | Some f \<Rightarrow> (True, butlast f, \<lparr>found = Some f, halt = True\<rparr>))"
proof (induction t "FindVisitor p" sp st and ts "FindVisitor p" sp st
       rule: TreeTraverser__traverse_node_traverse_children.induct)
  case (1 a ch sp s)
  show ?case
  proof (cases "p (Some (Node a ch))")
    case True
    then show ?thesis using 1(2) by (simp add: FindVisitor_def)
  next
    case False
    show ?thesis
    proof (cases ch)
      case None
      then show ?thesis using False 1(2) by (simp add: FindVisitor_def)
    next
      case (Some cs)
      have "traverse_children cs (FindVisitor p) (sp @ [Some (Node a ch)]) s =
             (case first_match_list p (sp @ [Some (Node a ch)]) cs of
                None \<Rightarrow> (False, sp @ [Some (Node a ch)], s)
              | Some f \<Rightarrow> (True, butlast f, \<lparr>found = Some f, halt = True\<rparr>))"
        using 1(1)[of "(True, s)" True s cs] 1(2) False Some by (simp add: FindVisitor_def)
      then show ?thesis using False 1(2) Some
        by (cases "first_match_list p (sp @ [Some (Node a ch)]) cs")
           (simp_all add: FindVisitor_def)
    qed
  qed
next
  case (2 sp s)
  then show ?case by simp
next
  case (3 c cs sp s)
  show ?case
  proof (cases "first_match p sp c")
    case None
    then show ?thesis using 3 by (simp add: FindVisitor_def)
  next
    case (Some f)
    then show ?thesis using 3(1)[OF 3(3)] by (simp add: FindVisitor_def)
  qed
qed

lemma find_general:
  assumes "node tt = Some n"
  shows "TreeTraverser_find tt p =
           Inr (case first_match p (spine tt) n of
                  None \<Rightarrow> (None, tt)
                | Some f \<Rightarrow> (last f, tt\<lparr>spine := f\<rparr>))"
proof (cases "first_match p (spine tt) n")
  case None
  then show ?thesis using assms
    by (simp add: TreeTraverser_find_def TreeTraverser_traverse_def TreeTraverser__traverse_def
        FindVisitor_new_def find_visitor_traverse(1))
next
  case (Some f)
  then have "f \<noteq> []" using first_match_starts(1) by fastforce
  then show ?thesis using assms Some
    by (simp add: TreeTraverser_find_def TreeTraverser_traverse_def TreeTraverser__traverse_def
        FindVisitor_new_def find_visitor_traverse(1) node_def)
qed

text \<open>From a traverser without a node, \<open>find\<close> raises, unless the predicate holds of
  \<open>null\<close>: then it returns \<open>null\<close> and appends \<open>null\<close> to the spine.\<close>

lemma find_from_null:
  assumes "node tt = None"
  shows "TreeTraverser_find tt p =
           (if p None then Inr (None, tt\<lparr>spine := spine tt @ [None]\<rparr>) else Inl TypeError)"
  using assms
  by (simp add: TreeTraverser_find_def TreeTraverser_traverse_def TreeTraverser__traverse_def
      FindVisitor_new_def FindVisitor_def node_def)

lemma find_returns_first_match:
  assumes "node tt = Some n"
  shows "map_sum id fst (TreeTraverser_find tt p)
           = Inr (List.find (\<lambda>m. p (Some m)) (preorder_nodes n))"
  using first_match_is_first(1)[of p "spine tt" n]
  by (cases "first_match p (spine tt) n"; cases "List.find (\<lambda>m. p (Some m)) (preorder_nodes n)")
     (simp_all add: find_general[OF assms])

lemma find_without_match:
  assumes "node tt = Some n" "List.find (\<lambda>m. p (Some m)) (preorder_nodes n) = None"
  shows "TreeTraverser_find tt p = Inr (None, tt)"
  using first_match_is_first(1)[of p "spine tt" n] assms(2)
  by (cases "first_match p (spine tt) n") (simp_all add: find_general[OF assms(1)])

lemma find_result_extends_spine:
  assumes "node tt = Some n" "TreeTraverser_find tt p = Inr (Some m, tt')"
  shows "\<exists>r. spine tt' = spine tt @ Some n # r \<and> last (spine tt) = Some n"
proof -
  have l: "last (spine tt) = Some n" using assms(1) by (simp add: node_def split: if_splits)
  obtain f where f: "first_match p (spine tt) n = Some f" and tt': "tt' = tt\<lparr>spine := f\<rparr>"
    using assms(2) by (cases "first_match p (spine tt) n") (simp_all add: find_general[OF assms(1)])
  obtain r where "f = spine tt @ Some n # r" using first_match_starts(1)[OF f] by blast
  then show ?thesis using tt' l by auto
qed

text \<open>
  C10. \<open>find\<close> should return the first match in depth-first preorder and leave the
  traverser's spine at the path from the root to the match, or return \<open>null\<close> and leave
  the spine alone. The node returned and the case without a match are as claimed
  (\<open>find_returns_first_match\<close>, \<open>find_without_match\<close>). The spine is built from the spine
  the preOrder hook receives, which repeats the start node (\<open>find_result_extends_spine\<close>;
  the defect of C3): searching from the root of the two-node tree for the child leaves the
  spine root, root, child.
\<close>

theorem find_leaves_repeated_start_node:
  "TreeTraverser_find \<lparr>spine = [Some root1]\<rparr> (\<lambda>n. map_option label n = Some 1)
     = Inr (Some (Node 1 None), \<lparr>spine = [Some root1, Some root1, Some (Node 1 None)]\<rparr>)"
  by (simp add: TreeTraverser_find_def TreeTraverser_traverse_def TreeTraverser__traverse_def
      node_def FindVisitor_def FindVisitor_new_def root1_def)

section \<open>TreeTraverser: siblings\<close>

text \<open>The traverser is no element of an array of nodes.\<close>

lemma indexOf_traverser: "indexOf (map NodeObject cs) (TraverserObject tt) = -1"
  by (induction cs) simp_all

lemma prevSibling_stays:
  "TreeTraverser_prevSibling tt = Inl TypeError \<or> TreeTraverser_prevSibling tt = Inr (None, tt)"
  by (simp add: TreeTraverser_prevSibling_def indexOf_traverser Let_def split: option.splits)

text \<open>
  C8. \<open>nextSibling\<close> should move to the child after the current node and give \<open>null\<close> at
  the last child, and \<open>prevSibling\<close> symmetrically. Both look up the traverser itself,
  not the current node, among the parent's children, so the index is always \<open>-1\<close>: with
  children 1 and 2, \<open>nextSibling\<close> at child 1 returns child 1, at child 2 (the last) it
  returns child 1, and \<open>prevSibling\<close> at child 2 returns \<open>null\<close>.
\<close>

theorem siblings_ignore_current_node:
  "TreeTraverser_nextSibling \<lparr>spine = [Some par, Some (Node 1 None)]\<rparr>
     = Inr (Some (Node 1 None), \<lparr>spine = [Some par, Some (Node 1 None)]\<rparr>) \<and>
   TreeTraverser_nextSibling \<lparr>spine = [Some par, Some (Node 2 None)]\<rparr>
     = Inr (Some (Node 1 None), \<lparr>spine = [Some par, Some (Node 1 None)]\<rparr>) \<and>
   TreeTraverser_prevSibling \<lparr>spine = [Some par, Some (Node 2 None)]\<rparr>
     = Inr (None, \<lparr>spine = [Some par, Some (Node 2 None)]\<rparr>)"
  by (simp add: TreeTraverser_nextSibling_def TreeTraverser_prevSibling_def par_def node_def
      Let_def)

section \<open>Debounce\<close>

lemma advance_idle:
  "next_due t (snd st) = None \<Longrightarrow> advance t st = (fst st, (snd st)\<lparr>now := max (now (snd st)) t\<rparr>)"
  by (subst advance.simps) simp

lemma advance_fire:
  "next_due t (snd st) = Some x \<Longrightarrow> advance t st = advance t (fire x st)"
  by (subst advance.simps) simp

lemma host_delay_in_range: "w \<le> 2147483647 \<Longrightarrow> host_delay w = max 1 w"
  by (auto simp: host_delay_def)

lemma handle_first:
  assumes "timeouts host = []" "now host \<le> t"
  shows "pending_only (handler d) (wait_private d) t e (calls host)
           (Debounce_handle e (advance t (d, host)))"
proof -
  have nd: "next_due t (snd (d, host)) = None" using assms(1) by (simp add: next_due_def)
  show ?thesis
    using assms unfolding advance_idle[OF nd]
    by (cases "timer d")
       (simp_all add: Debounce_handle_def Debounce_clear_def clearTimeout_def setTimeout_def
          pending_only_def max_def)
qed

lemma handle_again:
  assumes "pending_only h w t e base st" "t \<le> t'" "t' < t + host_delay w"
  shows "pending_only h w t' e' base (Debounce_handle e' (advance t' st))"
proof -
  obtain d host where st: "st = (d, host)" by (cases st)
  have nd: "next_due t' (snd st) = None"
    using assms st by (auto simp: next_due_def pending_only_def)
  show ?thesis
    using assms st unfolding advance_idle[OF nd]
    by (auto simp: pending_only_def Debounce_handle_def Debounce_clear_def clearTimeout_def
        setTimeout_def max_def)
qed

lemma handle_calls_pending:
  "pending_only h w t e base st \<Longrightarrow> within_wait w t rest \<Longrightarrow> w \<le> host_delay w \<Longrightarrow>
     pending_only h w (fst (last ((t, e) # rest))) (snd (last ((t, e) # rest))) base
       (handle_calls rest st)"
proof (induction rest arbitrary: t e st)
  case Nil
  then show ?case by simp
next
  case (Cons c rest)
  obtain t' e' where c: "c = (t', e')" by (cases c)
  have "t \<le> t'" "t' < t + host_delay w" using Cons.prems c by simp_all
  then have "pending_only h w t' e' base (Debounce_handle e' (advance t' st))"
    using handle_again[of h w t e base st t' e'] Cons.prems(1) by simp
  then have "pending_only h w (fst (last ((t', e') # rest))) (snd (last ((t', e') # rest))) base
      (handle_calls rest (Debounce_handle e' (advance t' st)))"
    using Cons.IH Cons.prems c by simp
  then show ?case using c by simp
qed

lemma pending_not_yet:
  assumes "pending_only h w t e base st" "T < t + host_delay w"
  shows "calls (snd (advance T st)) = base"
proof -
  have nd: "next_due T (snd st) = None"
    using assms by (cases st) (auto simp: next_due_def pending_only_def)
  show ?thesis using assms unfolding advance_idle[OF nd]
    by (cases st) (auto simp: pending_only_def)
qed

lemma pending_fires:
  assumes "pending_only h w t e base st" "t + host_delay w \<le> T"
  shows "calls (snd (advance T st)) = base @ [(t + host_delay w, h, e)]"
proof -
  obtain d host where st: "st = (d, host)" by (cases st)
  define x where "x = \<lparr>handle_id = the (timer d), due = t + host_delay w, later_handler = h,
    later_event = e\<rparr>"
  have nd: "next_due T (snd st) = Some x"
    using assms st by (auto simp: next_due_def pending_only_def x_def)
  have f: "timeouts (snd (fire x st)) = [] \<and>
           calls (snd (fire x st)) = base @ [(t + host_delay w, h, e)]"
    using assms st
    by (auto simp: fire_def later_def Debounce_clear_def clearTimeout_def pending_only_def x_def
        max_def)
  then have nd2: "next_due T (snd (fire x st)) = None" by (simp add: next_due_def)
  show ?thesis unfolding advance_fire[OF nd] advance_idle[OF nd2] using f by simp
qed

text \<open>
  C5, as stated: for every wait \<open>w\<close>, after calls \<open>handle(e1)\<close>, ..., \<open>handle(en)\<close> less than
  \<open>w\<close> apart the handler is called exactly once, with \<open>en\<close>, no earlier than \<open>w\<close> after the
  last call. It fails for a wait the host does not take as given: with \<open>w = 2147483648\<close>
  the host runs each timeout after 1 ms, so \<open>handle(a)\<close> at 0 and \<open>handle(b)\<close> at 10 make
  the handler run twice, at 1 with \<open>a\<close> and at 11 with \<open>b\<close>.
\<close>

theorem debounce_fires_early_beyond_host_range:
  "within_wait 2147483648 0 [(10, ''b'')] \<and>
   calls (snd (advance 300
     (handle_calls [(0, ''a''), (10, ''b'')] (Debounce_new () 2147483648, Host_new))))
     = [(1, (), ''a''), (11, (), ''b'')]"
  by (simp add: advance.simps Debounce_handle_def Debounce_new_def Host_new_def
      Debounce_clear_def clearTimeout_def setTimeout_def host_delay_def next_due_def fire_def
      later_def)

text \<open>
  C5, amended: for a \<open>Debounce\<close> whose wait \<open>w\<close> is at most 2147483647 ms and that has no
  timeout pending, and calls \<open>handle(e1)\<close>, ..., \<open>handle(en)\<close> each less than \<open>w\<close> after the
  one before, the handler is not called before \<open>w\<close> after the last call (1 ms after it when
  \<open>w\<close> is 0), and from then on it has been called exactly once more, with \<open>en\<close>; the events
  before \<open>en\<close> never reach it.
\<close>

theorem debounce_quiescence:
  assumes "wait_private d \<le> 2147483647"
    and "within_wait (wait_private d) t1 rest"
    and "timeouts host = []"
    and "now host \<le> t1"
  shows "(T < fst (last ((t1, e1) # rest)) + max 1 (wait_private d) \<longrightarrow>
            calls (snd (advance T (handle_calls ((t1, e1) # rest) (d, host)))) = calls host) \<and>
         (fst (last ((t1, e1) # rest)) + max 1 (wait_private d) \<le> T \<longrightarrow>
            calls (snd (advance T (handle_calls ((t1, e1) # rest) (d, host))))
              = calls host @
                [(fst (last ((t1, e1) # rest)) + max 1 (wait_private d), handler d,
                  snd (last ((t1, e1) # rest)))])"
proof -
  define w where "w = wait_private d"
  have hd: "host_delay w = max 1 w" using assms(1) w_def by (simp add: host_delay_in_range)
  then have ge: "w \<le> host_delay w" by simp
  have first: "pending_only (handler d) w t1 e1 (calls host)
                 (Debounce_handle e1 (advance t1 (d, host)))"
    unfolding w_def by (rule handle_first[OF assms(3,4)])
  have unfold: "handle_calls ((t1, e1) # rest) (d, host)
      = handle_calls rest (Debounce_handle e1 (advance t1 (d, host)))"
    by (simp only: handle_calls.simps)
  have ww: "within_wait w t1 rest" using assms(2) w_def by simp
  have p: "pending_only (handler d) w (fst (last ((t1, e1) # rest)))
             (snd (last ((t1, e1) # rest))) (calls host)
             (handle_calls ((t1, e1) # rest) (d, host))"
    unfolding unfold by (rule handle_calls_pending[OF first ww ge])
  show ?thesis
  proof (intro conjI impI)
    assume "T < fst (last ((t1, e1) # rest)) + max 1 (wait_private d)"
    then have "T < fst (last ((t1, e1) # rest)) + host_delay w" using hd w_def by simp
    then show "calls (snd (advance T (handle_calls ((t1, e1) # rest) (d, host)))) = calls host"
      by (rule pending_not_yet[OF p])
  next
    assume "fst (last ((t1, e1) # rest)) + max 1 (wait_private d) \<le> T"
    then have "fst (last ((t1, e1) # rest)) + host_delay w \<le> T" using hd w_def by simp
    then have "calls (snd (advance T (handle_calls ((t1, e1) # rest) (d, host))))
                 = calls host @ [(fst (last ((t1, e1) # rest)) + host_delay w, handler d,
                                  snd (last ((t1, e1) # rest)))]"
      by (rule pending_fires[OF p])
    then show "calls (snd (advance T (handle_calls ((t1, e1) # rest) (d, host))))
              = calls host @
                [(fst (last ((t1, e1) # rest)) + max 1 (wait_private d), handler d,
                  snd (last ((t1, e1) # rest)))]"
      using hd w_def by simp
  qed
qed

theorem debounce_quiescence_witness:
  "wait_private (Debounce_new () 50 :: (unit, string) Debounce) \<le> 2147483647 \<and>
   within_wait (wait_private (Debounce_new () 50 :: (unit, string) Debounce)) 0
     [(10, ''b''), (20, ''c'')] \<and>
   timeouts (Host_new :: (unit, string) Host) = [] \<and>
   now (Host_new :: (unit, string) Host) \<le> 0 \<and>
   calls (snd (advance 69
     (handle_calls [(0, ''a''), (10, ''b''), (20, ''c'')] (Debounce_new () 50, Host_new)))) = [] \<and>
   calls (snd (advance 70
     (handle_calls [(0, ''a''), (10, ''b''), (20, ''c'')] (Debounce_new () 50, Host_new))))
     = [(70, (), ''c'')]"
proof -
  have a: "wait_private (Debounce_new () 50 :: (unit, string) Debounce) \<le> 2147483647"
    by (simp add: Debounce_new_def)
  have b: "within_wait (wait_private (Debounce_new () 50 :: (unit, string) Debounce)) 0
             [(10, ''b''), (20, ''c'')]"
    by (simp add: Debounce_new_def)
  have c: "timeouts (Host_new :: (unit, string) Host) = []" by (simp add: Host_new_def)
  have d: "now (Host_new :: (unit, string) Host) \<le> 0" by (simp add: Host_new_def)
  have l: "last [(0::nat, ''a''), (10, ''b''), (20, ''c'')] = (20, ''c'')" by simp
  have h: "handler (Debounce_new () 50 :: (unit, string) Debounce) = ()" by simp
  have m: "max 1 (wait_private (Debounce_new () 50 :: (unit, string) Debounce)) = 50"
    by (simp add: Debounce_new_def)
  have n: "calls (Host_new :: (unit, string) Host) = []" by (simp add: Host_new_def)
  show ?thesis
    using a b c d debounce_quiescence[OF a b c d, of 69 "''a''"]
      debounce_quiescence[OF a b c d, of 70 "''a''"]
    unfolding l m n by (simp del: handle_calls.simps)
qed

lemma handle_reads_private_wait:
  "due (last (timeouts (snd (Debounce_handle e (Debounce_set_wait v d, host)))))
     = now host + host_delay (wait_private d)"
  by (simp add: Debounce_handle_def Debounce_set_wait_def Debounce_clear_def clearTimeout_def
      setTimeout_def split: option.splits)

text \<open>The provider's setter \<open>debounceWait\<close> leaves \<open>_wait\<close> of the debouncers as it was.\<close>

lemma set_debounceWait_keeps_private_wait:
  "debounceMap dp u = Some d \<Longrightarrow>
     map_option wait_private (debounceMap (DiagnosticsProvider_set_debounceWait v dp) u)
       = Some (wait_private d)"
  by (simp add: DiagnosticsProvider_set_debounceWait_def Debounce_set_wait_def)

text \<open>
  C7. A value assigned to \<open>wait\<close> should be the delay of the next \<open>handle\<close>. The class has
  no such member, and \<open>handle\<close> reads \<open>_wait\<close>, which only the constructor sets: a
  \<open>Debounce\<close> built with 1000 and assigned \<open>wait = 50\<close> has not fired 50 ms after
  \<open>handle\<close>, and fires at 1000 ms.
\<close>

theorem wait_assignment_ignored:
  "calls (snd (advance 50
     (Debounce_handle (7::nat) (Debounce_set_wait 50 (Debounce_new () 1000), Host_new)))) = [] \<and>
   calls (snd (advance 1000
     (Debounce_handle (7::nat) (Debounce_set_wait 50 (Debounce_new () 1000), Host_new))))
       = [(1000, (), 7)]"
  by (simp add: advance.simps Debounce_handle_def Debounce_set_wait_def Debounce_new_def Host_new_def
      Debounce_clear_def clearTimeout_def setTimeout_def host_delay_def next_due_def fire_def
      later_def)

section \<open>DiagnosticsProvider\<close>

lemma find_loop_shifted:
  "fst (find_loop u ds sh f) = sh @ filter (\<lambda>d. uri d \<noteq> u) ds"
  by (induction ds arbitrary: sh f) auto

lemma find_loop_found:
  "snd (find_loop u ds sh f) =
     (case filter (\<lambda>d. uri d = u) ds of [] \<Rightarrow> f | x # xs \<Rightarrow> Some (last (x # xs)))"
  by (induction ds arbitrary: sh f) (auto split: list.splits)

lemma find_loop_found_None:
  "snd (find_loop u ds sh None) = None \<longleftrightarrow> u \<notin> uri ` set ds"
proof -
  have "filter (\<lambda>d. uri d = u) ds = [] \<longleftrightarrow> u \<notin> uri ` set ds"
    by (auto simp: filter_empty_conv)
  then show ?thesis
    by (cases "filter (\<lambda>d. uri d = u) ds") (simp_all add: find_loop_found)
qed

lemma find_loop_found_uri:
  "snd (find_loop u ds sh None) = Some d \<Longrightarrow> uri d = u \<and> d \<in> set ds"
proof -
  assume a: "snd (find_loop u ds sh None) = Some d"
  then obtain x xs where f: "filter (\<lambda>d. uri d = u) ds = x # xs" and d: "d = last (x # xs)"
    by (auto simp: find_loop_found split: list.splits)
  have "d \<in> set (x # xs)" unfolding d by (rule last_in_set) simp
  then have "d \<in> set (filter (\<lambda>d. uri d = u) ds)" using f by simp
  then show ?thesis by simp
qed

lemma has_fresh:
  "u \<notin> uri ` set (docs dp) \<Longrightarrow> DiagnosticsProvider_has dp u = (dp, False)"
proof -
  assume a: "u \<notin> uri ` set (docs dp)"
  then have n: "snd (find_loop u (docs dp) [] None) = None" by (simp add: find_loop_found_None)
  have "filter (\<lambda>d. uri d \<noteq> u) (docs dp) = docs dp" using a by (auto simp: filter_id_conv)
  then have s: "fst (find_loop u (docs dp) [] None) = docs dp" by (simp add: find_loop_shifted)
  show ?thesis using n s
    by (cases "find_loop u (docs dp) [] None")
       (simp add: DiagnosticsProvider_has_def DiagnosticsProvider__find_def)
qed

lemma has_present:
  "u \<in> uri ` set (docs dp) \<Longrightarrow> snd (DiagnosticsProvider_has dp u) = True"
proof -
  assume a: "u \<in> uri ` set (docs dp)"
  then have "snd (find_loop u (docs dp) [] None) \<noteq> None" by (simp add: find_loop_found_None)
  then show ?thesis
    by (cases "find_loop u (docs dp) [] None")
       (auto simp: DiagnosticsProvider_has_def DiagnosticsProvider__find_def split: option.splits)
qed

lemma find_keeps_distinct:
  assumes "distinct (map uri (docs dp))"
  shows "distinct (map uri (docs (fst (DiagnosticsProvider__find dp u))))"
proof (cases "snd (find_loop u (docs dp) [] None)")
  case None
  then show ?thesis using assms find_loop_shifted[of u "docs dp" "[]" None]
    by (cases "find_loop u (docs dp) [] None")
       (simp add: DiagnosticsProvider__find_def distinct_map_filter)
next
  case (Some d)
  then have "uri d = u" using find_loop_found_uri by blast
  then show ?thesis using assms Some find_loop_shifted[of u "docs dp" "[]" None]
    by (cases "find_loop u (docs dp) [] None")
       (auto simp: DiagnosticsProvider__find_def distinct_map_filter)
qed

lemma has_keeps_distinct:
  "distinct (map uri (docs dp)) \<Longrightarrow> distinct (map uri (docs (fst (DiagnosticsProvider_has dp u))))"
  using find_keeps_distinct[of dp u]
  by (cases "DiagnosticsProvider__find dp u") (simp add: DiagnosticsProvider_has_def)

lemma has_keeps_uris:
  "uri ` set (docs (fst (DiagnosticsProvider_has dp u))) = uri ` set (docs dp)"
proof (cases "snd (find_loop u (docs dp) [] None)")
  case None
  then have "u \<notin> uri ` set (docs dp)" by (simp add: find_loop_found_None)
  then show ?thesis by (simp add: has_fresh)
next
  case (Some d)
  then have d: "uri d = u \<and> d \<in> set (docs dp)" using find_loop_found_uri by blast
  have "docs (fst (DiagnosticsProvider_has dp u)) = d # filter (\<lambda>d. uri d \<noteq> u) (docs dp)"
    using Some find_loop_shifted[of u "docs dp" "[]" None]
    by (cases "find_loop u (docs dp) [] None")
       (simp add: DiagnosticsProvider_has_def DiagnosticsProvider__find_def)
  then show ?thesis using d by auto
qed

text \<open>
  C9. \<open>add(doc)\<close> throws exactly when a document with the URI of \<open>doc\<close> is registered.
  With a fresh URI it puts the document in front of \<open>_docs\<close>, subscribed to its change
  event, stores a new debouncer and the unsubscribe token under the URI, and throws
  nothing. A list \<open>_docs\<close> without two documents of one URI stays so through \<open>add\<close>.
\<close>

theorem add_duplicate_key:
  "(snd (DiagnosticsProvider_add dp doc) = Inl DuplicateKey \<longleftrightarrow> uri doc \<in> uri ` set (docs dp)) \<and>
   (uri doc \<notin> uri ` set (docs dp) \<longrightarrow>
      DiagnosticsProvider_add dp doc =
        (dp\<lparr>docs := doc\<lparr>changeEvent :=
                    (changeEvent doc)\<lparr>subscribed :=
                       subscribed (changeEvent doc) @ [DebounceHandler (uri doc)]\<rparr>\<rparr> # docs dp,
            debounceMap := (debounceMap dp)
              (uri doc \<mapsto> Debounce_new OnParsedDocumentChanged (debounceWaitTime dp)),
            unsubscribeMap := (unsubscribeMap dp)
              (uri doc \<mapsto> length (subscribed (changeEvent doc)))\<rparr>,
         Inr ())) \<and>
   (distinct (map uri (docs dp)) \<longrightarrow>
      distinct (map uri (docs (fst (DiagnosticsProvider_add dp doc)))))"
proof (intro conjI impI)
  show "snd (DiagnosticsProvider_add dp doc) = Inl DuplicateKey \<longleftrightarrow> uri doc \<in> uri ` set (docs dp)"
  proof (cases "uri doc \<in> uri ` set (docs dp)")
    case True
    then show ?thesis using has_present[of "uri doc" dp]
      by (cases "DiagnosticsProvider_has dp (uri doc)") (simp add: DiagnosticsProvider_add_def)
  next
    case False
    then show ?thesis
      by (simp add: DiagnosticsProvider_add_def has_fresh Event_subscribe_def Let_def)
  qed
next
  assume "uri doc \<notin> uri ` set (docs dp)"
  then show "DiagnosticsProvider_add dp doc =
        (dp\<lparr>docs := doc\<lparr>changeEvent :=
                    (changeEvent doc)\<lparr>subscribed :=
                       subscribed (changeEvent doc) @ [DebounceHandler (uri doc)]\<rparr>\<rparr> # docs dp,
            debounceMap := (debounceMap dp)
              (uri doc \<mapsto> Debounce_new OnParsedDocumentChanged (debounceWaitTime dp)),
            unsubscribeMap := (unsubscribeMap dp)
              (uri doc \<mapsto> length (subscribed (changeEvent doc)))\<rparr>,
         Inr ())"
    by (simp add: DiagnosticsProvider_add_def has_fresh Event_subscribe_def Let_def)
next
  assume d: "distinct (map uri (docs dp))"
  show "distinct (map uri (docs (fst (DiagnosticsProvider_add dp doc))))"
  proof (cases "uri doc \<in> uri ` set (docs dp)")
    case True
    then show ?thesis using has_present[of "uri doc" dp] has_keeps_distinct[OF d, of "uri doc"]
      by (cases "DiagnosticsProvider_has dp (uri doc)") (simp add: DiagnosticsProvider_add_def)
  next
    case False
    then show ?thesis using d
      by (simp add: DiagnosticsProvider_add_def has_fresh Event_subscribe_def Let_def)
  qed
qed

theorem add_duplicate_key_witness:
  "uri docB \<notin> uri ` set (docs (DiagnosticsProvider_new :: unit DiagnosticsProvider)) \<and>
   distinct (map uri (docs (DiagnosticsProvider_new :: unit DiagnosticsProvider))) \<and>
   snd (DiagnosticsProvider_add (DiagnosticsProvider_new :: unit DiagnosticsProvider) docB) = Inr () \<and>
   map uri (docs (fst (DiagnosticsProvider_add (DiagnosticsProvider_new :: unit DiagnosticsProvider) docB)))
     = [''b.php''] \<and>
   snd (DiagnosticsProvider_add
          (fst (DiagnosticsProvider_add (DiagnosticsProvider_new :: unit DiagnosticsProvider) docB)) docB)
     = Inl DuplicateKey"
proof -
  define dp0 where "dp0 = (DiagnosticsProvider_new :: unit DiagnosticsProvider)"
  define dp1 where "dp1 = fst (DiagnosticsProvider_add dp0 docB)"
  have fresh: "uri docB \<notin> uri ` set (docs dp0)"
    by (simp add: dp0_def DiagnosticsProvider_new_def)
  have dist: "distinct (map uri (docs dp0))"
    by (simp add: dp0_def DiagnosticsProvider_new_def)
  have first: "snd (DiagnosticsProvider_add dp0 docB) = Inr () \<and> map uri (docs dp1) = [''b.php'']"
    using add_duplicate_key[of dp0 docB] fresh
    by (simp add: dp1_def dp0_def DiagnosticsProvider_new_def docB_def)
  then have "uri docB \<in> uri ` set (docs dp1)"
    by (metis list.set_intros(1) list.simps(9) list.set_map docB_def ParsedDocument.select_convs(1))
  then have second: "snd (DiagnosticsProvider_add dp1 docB) = Inl DuplicateKey"
    using add_duplicate_key[of dp1 docB] by simp
  show ?thesis using fresh dist first second unfolding dp1_def dp0_def by simp
qed

lemma diagnose_uncapped:
  assumes "maxItems_private dp = None"
    and "DiagnosticsProvider__diagnose ext dp u = (dp', Inr ds)"
  shows "ds = concat (map (cached_diagnostics dp') (docs dp'))"
  using assms
  by (auto simp: DiagnosticsProvider__diagnose_def DiagnosticsProvider__find_def js_slice_def
      Let_def split: prod.splits option.splits sum.splits)

text \<open>
  C1. Every published diagnostics list should have at most \<open>maxItems\<close> entries, 100 by
  default. The constructor sets \<open>maxItems\<close>, and \<open>_diagnose\<close> cuts the list at \<open>_maxItems\<close>,
  which nothing sets: nothing is cut. For a new provider with one document whose root
  phrase carries 101 parse errors, the list handed to the publish event has 101 entries
  while \<open>maxItems\<close> is 100.
\<close>

theorem diagnose_not_capped:
  "maxItems (fst (DiagnosticsProvider_add DiagnosticsProvider_new doc101)) = 100 \<and>
   snd (DiagnosticsProvider_add DiagnosticsProvider_new doc101) = Inr () \<and>
   map_sum id (\<lambda>p. (fst p, length (snd p)))
     (snd (DiagnosticsProvider__onParsedDocumentChanged ext
        (fst (DiagnosticsProvider_add DiagnosticsProvider_new doc101)) doc101))
     = Inr (''a.php'', 101)"
  by (simp add: DiagnosticsProvider_add_def DiagnosticsProvider_new_def doc101_def
      DiagnosticsProvider_has_def DiagnosticsProvider__find_def Event_subscribe_def Event_new_def
      DiagnosticsProvider__onParsedDocumentChanged_def DiagnosticsProvider__diagnose_def
      ParsedDocument_traverse_def TreeTraverser_traverse_def TreeTraverser__traverse_def
      node_def ErrorVisitor_def js_slice_def cached_diagnostics_def Let_def)

end
